theory Spec2Isabelle
  imports Main "HOL-Library.AList"
begin

section \<open>Data model\<close>

text \<open>
  The solver is generic in the variable type \<open>T extends string\<close>; variables are strings.
  Values are \<open>any\<close> in the source; the problems of the repository use strings and booleans,
  and integers are added here. Values are compared with \<open>===\<close>, which is equality on these.
  A value is never \<open>undefined\<close> (or \<open>NaN\<close>), so that \<open>typeof assignment[v] === "undefined"\<close>
  holds exactly when the read finds no property.

  A JavaScript object used as a record from keys to values (\<open>Assignment\<close>, \<open>domains\<close>,
  \<open>neighbours\<close>) is an association list of its own properties in insertion order. Writing
  \<open>o[k] = v\<close> and the spread \<open>{...o, [k]: v}\<close> are \<^const>\<open>AList.update\<close>, \<open>Object.keys(o)\<close> is
  \<open>map fst o\<close>. Reading \<open>o[k]\<close> finds an own property with \<^const>\<open>map_of\<close>; when there is
  none, a plain object still inherits the properties of \<open>Object.prototype\<close>, so the read
  gives \<open>undefined\<close> only for a key that is not one of the names below.

  For assignments and for the neighbour index the difference shows, and the reads are
  modelled with it (\<open>read\<close>, \<open>add_neighbour\<close>). Where the code reads a domain,
  \<open>csp.domains[v]\<close>, or a list of neighbours, \<open>csp.neighbours[x]\<close>, and then iterates it or
  calls an array method on it, it throws a \<open>TypeError\<close> for \<open>undefined\<close> and for an inherited
  property alike, none of them being an array: there \<^const>\<open>map_of\<close> finding nothing is
  the exception.
\<close>

type_synonym var = string

datatype val = Str string | Bool bool | Num int

type_synonym assignment = "(var \<times> val) list"

text \<open>The names of the properties of \<open>Object.prototype\<close>.\<close>

definition object_prototype :: "string list" where
  "object_prototype =
     [''constructor'', ''__defineGetter__'', ''__defineSetter__'', ''hasOwnProperty'',
      ''__lookupGetter__'', ''__lookupSetter__'', ''isPrototypeOf'', ''propertyIsEnumerable'',
      ''toString'', ''valueOf'', ''__proto__'', ''toLocaleString'']"

text \<open>
  What reading \<open>assignment[k]\<close> gives: \<open>undefined\<close> (\<open>Absent\<close>), the value of the own
  property \<open>k\<close>, or the property \<open>k\<close> of \<open>Object.prototype\<close>. The inherited properties are
  functions (and one object), different from each other and from every value, so \<open>===\<close> on
  what two reads give is equality here.
\<close>

datatype property = Absent | Own val | Inherited var

definition read :: "assignment \<Rightarrow> var \<Rightarrow> property" where
  "read asg k =
     (case map_of asg k of
        Some v \<Rightarrow> Own v
      | None \<Rightarrow> if k \<in> set object_prototype then Inherited k else Absent)"

datatype constraint =
    MUST_SATISFY assignment
  | MUST_BE_DISTINCT "var list"

record csp =
  variables :: "var list"
  domains :: "(var \<times> val list) list"
  constraints :: "constraint list"
  arcs :: "(var \<times> var) list option"
  neighbours :: "(var \<times> var list) list option"

text \<open>\<open>SolverOptions\<close>: an option left out is \<open>undefined\<close>, which the solver tests as false.\<close>

record solverOptions =
  opt_forwardChecking :: bool
  opt_arcConsistency :: bool

datatype error = TypeError | MustProvideArcs

definition copyAndReverse :: "('a \<times> 'a) list \<Rightarrow> ('a \<times> 'a) list" where
  "copyAndReverse arr = arr @ map (\<lambda>(a, b). (b, a)) arr"

section \<open>validateConstraints\<close>

text \<open>
  The loops of \<open>validateConstraints\<close> either run to their end, with the flag \<open>ranOnce\<close>
  updated, or leave the function with \<open>return false\<close>. A loop returns \<open>Some ranOnce\<close> in
  the first case and \<open>None\<close> in the second.

  For \<open>MUST_BE_DISTINCT\<close> the outer index \<open>i\<close> runs over \<open>0 .. length - 2\<close> and the inner
  index \<open>j\<close> over \<open>1 .. length - 1\<close>: \<open>a\<close> ranges over \<^term>\<open>butlast vs\<close> and, for each
  \<open>a\<close>, \<open>b\<close> ranges over \<^term>\<open>tl vs\<close>.
\<close>

fun distinct_inner :: "assignment \<Rightarrow> var \<Rightarrow> var list \<Rightarrow> bool \<Rightarrow> bool option" where
  "distinct_inner asg a [] ranOnce = Some ranOnce"
| "distinct_inner asg a (b # bs) ranOnce =
     (if read asg a \<noteq> Absent \<and> read asg b \<noteq> Absent
      then (if read asg a = read asg b then None
            else distinct_inner asg a bs True)
      else distinct_inner asg a bs ranOnce)"

fun distinct_outer :: "assignment \<Rightarrow> var list \<Rightarrow> var list \<Rightarrow> bool \<Rightarrow> bool option" where
  "distinct_outer asg [] bs ranOnce = Some ranOnce"
| "distinct_outer asg (a # as) bs ranOnce =
     (case distinct_inner asg a bs ranOnce of
        None \<Rightarrow> None
      | Some ranOnce' \<Rightarrow> distinct_outer asg as bs ranOnce')"

definition must_be_distinct :: "assignment \<Rightarrow> var list \<Rightarrow> bool \<Rightarrow> bool option" where
  "must_be_distinct asg vs ranOnce = distinct_outer asg (butlast vs) (tl vs) ranOnce"

text \<open>
  For \<open>MUST_SATISFY\<close> the first loop sets \<open>fail\<close> when a key of the constraint is not
  assigned, and the constraint is skipped; otherwise \<open>ranOnce\<close> is set and the second loop
  computes \<open>atLeastTruthy\<close> and \<open>atLeastFalsey\<close>.
\<close>

definition must_satisfy :: "assignment \<Rightarrow> assignment \<Rightarrow> bool \<Rightarrow> bool option" where
  "must_satisfy asg target ranOnce =
     (let keys = map fst target;
          fail = list_ex (\<lambda>variable. read asg variable = Absent) keys
      in if fail then Some ranOnce
         else
           (let atLeastTruthy = list_ex (\<lambda>variable. read asg variable = read target variable) keys;
                atLeastFalsey = list_ex (\<lambda>variable. read asg variable \<noteq> read target variable) keys
            in if atLeastTruthy \<and> atLeastFalsey then None else Some True))"

fun validate_loop :: "assignment \<Rightarrow> constraint list \<Rightarrow> bool \<Rightarrow> bool \<Rightarrow> bool" where
  "validate_loop asg [] strict ranOnce = (if strict then ranOnce else True)"
| "validate_loop asg (MUST_BE_DISTINCT vs # cs) strict ranOnce =
     (case must_be_distinct asg vs ranOnce of
        None \<Rightarrow> False
      | Some ranOnce' \<Rightarrow> validate_loop asg cs strict ranOnce')"
| "validate_loop asg (MUST_SATISFY target # cs) strict ranOnce =
     (case must_satisfy asg target ranOnce of
        None \<Rightarrow> False
      | Some ranOnce' \<Rightarrow> validate_loop asg cs strict ranOnce')"

definition validateConstraints :: "assignment \<Rightarrow> constraint list \<Rightarrow> bool \<Rightarrow> bool" where
  "validateConstraints asg cs strict = validate_loop asg cs strict False"


section \<open>The problems of the repository\<close>

definition AUSTRALIA_VARIABLES :: "var list" where
  "AUSTRALIA_VARIABLES = [''WA'', ''NT'', ''Q'', ''NSW'', ''V'', ''SA'', ''T'']"

text \<open>The list of adjacent pairs, written twice in the source (constraints and arcs).\<close>

definition australia_pairs :: "(var \<times> var) list" where
  "australia_pairs =
     [(''SA'', ''WA''), (''SA'', ''NT''), (''SA'', ''Q''), (''SA'', ''NSW''), (''SA'', ''V''),
      (''WA'', ''NT''), (''NT'', ''Q''), (''Q'', ''NSW''), (''NSW'', ''V'')]"

definition Australia :: csp where
  "Australia =
     \<lparr>variables = AUSTRALIA_VARIABLES,
      domains = map (\<lambda>cur. (cur, [Str ''red'', Str ''green'', Str ''blue''])) AUSTRALIA_VARIABLES,
      constraints = map (\<lambda>(a, b). MUST_BE_DISTINCT [a, b]) australia_pairs,
      arcs = Some (copyAndReverse australia_pairs),
      neighbours = None\<rparr>"

definition LionUnicorn :: csp where
  "LionUnicorn =
     \<lparr>variables = [''today'', ''lion'', ''unicorn''],
      domains =
        [(''today'', [Str ''Monday'', Str ''Tuesday'', Str ''Wednesday'', Str ''Thursday'',
                     Str ''Friday'', Str ''Saturday'', Str ''Sunday'']),
         (''lion'', [Bool True, Bool False]),
         (''unicorn'', [Bool True, Bool False])],
      constraints =
        [MUST_SATISFY [(''lion'', Bool True), (''today'', Str ''Thursday'')],
         MUST_SATISFY [(''lion'', Bool False), (''today'', Str ''Monday'')],
         MUST_SATISFY [(''unicorn'', Bool True), (''today'', Str ''Sunday'')],
         MUST_SATISFY [(''unicorn'', Bool False), (''today'', Str ''Thursday'')]],
      arcs = Some (copyAndReverse [(''lion'', ''today''), (''unicorn'', ''today'')]),
      neighbours = None\<rparr>"

section \<open>forwardChecking\<close>

text \<open>
  \<open>forwardChecking\<close> returns \<open>undefined\<close> (the bare \<open>return;\<close> where a domain would become
  empty) or a boolean (\<open>false\<close>, or \<open>!!\<close> of what \<open>find\<close> found); its caller tests the
  result for truthiness.
\<close>

datatype ret = Undefined | Boolean bool

fun truthy :: "ret \<Rightarrow> bool" where
  "truthy Undefined = False"
| "truthy (Boolean b) = b"

type_synonym doms = "(var \<times> val list) list"

text \<open>
  The function mutates \<open>csp.domains\<close> of the instance it is given. The loops below pass
  the domains along and return them with how the loop ended: \<open>Inl e\<close> when reading a
  property of \<open>undefined\<close> throws (a constraint names a variable that has no domain),
  \<open>Inr None\<close> at the \<open>return;\<close> of a wipeout, and \<open>Inr (Some assignmentsToPropagate)\<close> at the
  end of the loop.

  \<open>fc_others\<close> is the loop over \<open>otherVariables\<close> of one constraint.
\<close>

fun fc_others :: "val \<Rightarrow> var list \<Rightarrow> doms \<Rightarrow> (var \<times> val) list
    \<Rightarrow> (error + (var \<times> val) list option) \<times> doms" where
  "fc_others value [] ds props = (Inr (Some props), ds)"
| "fc_others value (v # vs) ds props =
     (case map_of ds v of
        None \<Rightarrow> (Inl TypeError, ds)
      | Some domain \<Rightarrow>
          if value \<in> set domain then
            if length domain = 1 then (Inr None, ds)
            else
              (let domain' = filter (\<lambda>x. x \<noteq> value) domain;
                   ds' = AList.update v domain' ds
               in fc_others value vs ds'
                    (case domain' of [w] \<Rightarrow> props @ [(v, w)] | _ \<Rightarrow> props))
          else fc_others value vs ds props)"

text \<open>\<open>fc_constraints\<close> is the loop over \<open>csp.constraints\<close>.\<close>

fun fc_constraints :: "var \<Rightarrow> val \<Rightarrow> constraint list \<Rightarrow> doms \<Rightarrow> (var \<times> val) list
    \<Rightarrow> (error + (var \<times> val) list option) \<times> doms" where
  "fc_constraints variable value [] ds props = (Inr (Some props), ds)"
| "fc_constraints variable value (MUST_BE_DISTINCT vs # cs) ds props =
     (if variable \<in> set vs then
        (case fc_others value (filter (\<lambda>v. v \<noteq> variable) vs) ds props of
           (Inr (Some props'), ds') \<Rightarrow> fc_constraints variable value cs ds' props'
         | stop \<Rightarrow> stop)
      else fc_constraints variable value cs ds props)"
| "fc_constraints variable value (MUST_SATISFY target # cs) ds props =
     fc_constraints variable value cs ds props"

text \<open>
  The first part of the function: \<open>csp.domains[variable] = [value]\<close>, then the loop. (The
  write creates or replaces the own property \<open>variable\<close>. The search only forward-checks a
  variable whose domain it has just iterated, an own property; a direct call for the key
  \<open>"__proto__"\<close> on domains that do not hold it would replace the prototype of the domains
  instead, and is left out.)
\<close>

definition fc_prune :: "csp \<Rightarrow> var \<Rightarrow> val \<Rightarrow> (error + (var \<times> val) list option) \<times> doms" where
  "fc_prune c variable value =
     fc_constraints variable value (constraints c) (AList.update variable [value] (domains c)) []"

subsection \<open>Termination of the cascade\<close>

text \<open>
  The number of values in all domains. A variable is recorded for propagation when a value
  was removed from its domain and one value is left, so the recursive calls start from
  domains that hold fewer values, in which the collapse of the variable's domain to its
  recorded value changes nothing.
\<close>

definition dsize :: "doms \<Rightarrow> nat" where
  "dsize ds = sum_list (map (\<lambda>p. length (snd p)) ds)"

lemma dsize_update:
  "map_of ds k = Some d \<Longrightarrow> dsize (AList.update k d' ds) + length d = dsize ds + length d'"
  by (induction ds) (auto simp: dsize_def)

lemma length_filter_neq_less: "x \<in> set xs \<Longrightarrow> length (filter (\<lambda>y. y \<noteq> x) xs) < length xs"
  by (induction xs) (auto simp: less_Suc_eq_le)

definition fc_inv :: "val \<Rightarrow> nat \<Rightarrow> doms \<Rightarrow> (var \<times> val) list \<Rightarrow> bool" where
  "fc_inv value n ds props \<longleftrightarrow>
     (\<forall>(v, w)\<in>set props. map_of ds v = Some [w] \<and> w \<noteq> value) \<and>
     dsize ds \<le> n \<and> (props \<noteq> [] \<longrightarrow> dsize ds < n)"

lemma fc_others_inv:
  "fc_others value vs ds props = (Inr (Some props'), ds') \<Longrightarrow> fc_inv value n ds props
     \<Longrightarrow> fc_inv value n ds' props'"
proof (induction vs arbitrary: ds props)
  case Nil
  then show ?case by simp
next
  case (Cons v vs)
  from Cons.prems(1) obtain domain where dom: "map_of ds v = Some domain"
    by (auto split: option.splits)
  show ?case
  proof (cases "value \<in> set domain")
    case False
    with Cons dom show ?thesis by simp
  next
    case True
    let ?d = "filter (\<lambda>x. x \<noteq> value) domain"
    let ?ds = "AList.update v ?d ds"
    let ?props = "(case ?d of [w] \<Rightarrow> props @ [(v, w)] | _ \<Rightarrow> props)"
    from True Cons.prems(1) dom have len: "length domain \<noteq> 1"
      by (auto split: if_splits)
    with True Cons.prems(1) dom have run: "fc_others value vs ?ds ?props = (Inr (Some props'), ds')"
      by (simp add: Let_def)
    have less: "dsize ?ds < dsize ds"
      using dsize_update [OF dom, of ?d] length_filter_neq_less [OF True] by linarith
    have old: "\<forall>(u, w)\<in>set props. map_of ?ds u = Some [w] \<and> w \<noteq> value"
    proof (clarify)
      fix u w assume uw: "(u, w) \<in> set props"
      with Cons.prems(2) have m: "map_of ds u = Some [w]" and ne: "w \<noteq> value"
        by (auto simp: fc_inv_def)
      from m dom True ne have "u \<noteq> v" by auto
      with m ne show "map_of ?ds u = Some [w] \<and> w \<noteq> value"
        by (simp add: update_conv')
    qed
    have new: "\<forall>(u, w)\<in>set ?props. map_of ?ds u = Some [w] \<and> w \<noteq> value"
    proof (cases ?d)
      case Nil
      with old show ?thesis by simp
    next
      case (Cons w ws)
      show ?thesis
      proof (cases ws)
        case Nil
        have "w \<in> set ?d" using Cons by simp
        then have "w \<noteq> value" by simp
        with old Cons Nil show ?thesis by (auto simp: update_conv')
      next
        case (Cons w' ws')
        with \<open>?d = w # ws\<close> old show ?thesis by simp
      qed
    qed
    have "fc_inv value n ?ds ?props"
      using new less Cons.prems(2) by (auto simp: fc_inv_def)
    from Cons.IH [OF run this] show ?thesis .
  qed
qed

lemma fc_constraints_inv:
  "fc_constraints variable value cs ds props = (Inr (Some props'), ds') \<Longrightarrow> fc_inv value n ds props
     \<Longrightarrow> fc_inv value n ds' props'"
proof (induction variable "value" cs ds props rule: fc_constraints.induct)
  case (1 variable "value" ds props)
  then show ?case by simp
next
  case (2 variable "value" vs cs ds props)
  show ?case
  proof (cases "variable \<in> set vs")
    case False
    with 2 show ?thesis by simp
  next
    case True
    with "2.prems"(1) obtain p1 d1 where
      o: "fc_others value (filter (\<lambda>v. v \<noteq> variable) vs) ds props = (Inr (Some p1), d1)"
      and r: "fc_constraints variable value cs d1 p1 = (Inr (Some props'), ds')"
      by (auto split: prod.splits sum.splits option.splits)
    from fc_others_inv [OF o "2.prems"(2)] have "fc_inv value n d1 p1" .
    from "2.IH"(1) [OF True o [symmetric] refl refl r this] show ?thesis .
  qed
next
  case (3 variable "value" target cs ds props)
  then show ?case by simp
qed

lemma fc_prune_props:
  assumes "fc_prune c variable value = (Inr (Some props), ds)" and "(v, w) \<in> set props"
  shows "dsize (AList.update v [w] ds) < dsize (AList.update variable [value] (domains c))"
proof -
  have "fc_inv value (dsize (AList.update variable [value] (domains c)))
          (AList.update variable [value] (domains c)) []"
    by (simp add: fc_inv_def)
  from fc_constraints_inv [OF assms(1) [unfolded fc_prune_def] this]
  have inv: "fc_inv value (dsize (AList.update variable [value] (domains c))) ds props" .
  with assms(2) have "map_of ds v = Some [w]" by (auto simp: fc_inv_def)
  then have "AList.update v [w] ds = ds" by (rule update_triv)
  with inv assms(2) show ?thesis by (auto simp: fc_inv_def)
qed

fun fc_max :: "doms \<Rightarrow> (var \<times> val) list \<Rightarrow> nat" where
  "fc_max ds [] = 0"
| "fc_max ds ((v, w) # ps) = max (dsize (AList.update v [w] ds)) (fc_max ds ps)"

lemma fc_max_less:
  "ps \<noteq> [] \<Longrightarrow> (\<And>v w. (v, w) \<in> set ps \<Longrightarrow> dsize (AList.update v [w] ds) < n)
     \<Longrightarrow> fc_max ds ps < n"
proof (induction ds ps rule: fc_max.induct)
  case (1 ds)
  then show ?case by simp
next
  case (2 ds v w ps)
  show ?case
  proof (cases ps)
    case Nil
    with 2 show ?thesis by simp
  next
    case (Cons p ps')
    with 2 show ?thesis by simp
  qed
qed

text \<open>
  \<open>forwardChecking\<close> returns its result and the instance as it has mutated it. The last
  statement, \<open>!!assignmentsToPropagate.find(([variable, value]) =>
  forwardChecking(_.cloneDeep(csp), variable, value))\<close>, is \<open>fc_find\<close>: each recursive call
  works on a copy of its own of the pruned instance, which is dropped when the call returns,
  and \<open>find\<close> stops at the first call whose result is truthy.
\<close>

function forwardChecking :: "csp \<Rightarrow> var \<Rightarrow> val \<Rightarrow> (error + ret) \<times> csp"
  and fc_find :: "csp \<Rightarrow> (var \<times> val) list \<Rightarrow> error + (var \<times> val) option" where
  "forwardChecking c variable value =
     (case fc_prune c variable value of
        (Inl e, ds) \<Rightarrow> (Inl e, c\<lparr>domains := ds\<rparr>)
      | (Inr None, ds) \<Rightarrow> (Inr Undefined, c\<lparr>domains := ds\<rparr>)
      | (Inr (Some assignmentsToPropagate), ds) \<Rightarrow>
          if assignmentsToPropagate \<noteq> [] then
            (case fc_find (c\<lparr>domains := ds\<rparr>) assignmentsToPropagate of
               Inl e \<Rightarrow> (Inl e, c\<lparr>domains := ds\<rparr>)
             | Inr found \<Rightarrow> (Inr (Boolean (found \<noteq> None)), c\<lparr>domains := ds\<rparr>))
          else (Inr (Boolean False), c\<lparr>domains := ds\<rparr>))"
| "fc_find c [] = Inr None"
| "fc_find c ((variable, value) # rest) =
     (case fst (forwardChecking c variable value) of
        Inl e \<Rightarrow> Inl e
      | Inr r \<Rightarrow> if truthy r then Inr (Some (variable, value)) else fc_find c rest)"
  by pat_completeness auto
termination
proof (relation "measures
   [\<lambda>x. case x of Inl (c, variable, value) \<Rightarrow> 2 * dsize (AList.update variable [value] (domains c))
               | Inr (c, ps) \<Rightarrow> 2 * fc_max (domains c) ps + 1,
    \<lambda>x. case x of Inl _ \<Rightarrow> 0 | Inr (c, ps) \<Rightarrow> length ps]", goal_cases)
  case 1
  show ?case by simp
next
  case (2 c variable "value" x ds y ps)
  then have "fc_prune c variable value = (Inr (Some ps), ds)" by simp
  from fc_max_less [OF \<open>ps \<noteq> []\<close> fc_prune_props [OF this]]
  have "fc_max ds ps < dsize (AList.update variable [value] (domains c))" by blast
  then show ?case by simp
next
  case (3 c variable "value" rest)
  show ?case by (simp add: max_def)
next
  case (4 c variable "value" rest x)
  show ?case by (simp add: max_def)
qed

section \<open>arcConsistency\<close>

text \<open>
  \<open>find_support\<close> is the inner \<open>csp.domains[y].find(...)\<close> of \<open>removeInconsistentValues\<close>:
  the first value of \<open>y\<close> with which the object \<open>{[x]: valueX, [y]: valueY}\<close> passes strict
  validation. In the object literal the second key overwrites the first when \<open>x = y\<close>.
\<close>

definition find_support :: "constraint list \<Rightarrow> var \<Rightarrow> val \<Rightarrow> var \<Rightarrow> val list \<Rightarrow> val option" where
  "find_support cs x valueX y domY =
     find (\<lambda>valueY. validateConstraints
             (AList.update y valueY (AList.update x valueX [])) cs True) domY"

text \<open>
  The loop of \<open>removeInconsistentValues\<close> iterates over the array that \<open>csp.domains[x]\<close>
  held when the loop started, reads \<open>csp.domains[y]\<close> and \<open>csp.domains[x]\<close> anew in each
  round and replaces \<open>csp.domains[x]\<close> by a filtered copy.
\<close>

fun riv_loop :: "var \<Rightarrow> var \<Rightarrow> constraint list \<Rightarrow> val list \<Rightarrow> doms \<Rightarrow> bool
    \<Rightarrow> (error + bool) \<times> doms" where
  "riv_loop x y cs [] ds removed = (Inr removed, ds)"
| "riv_loop x y cs (valueX # rest) ds removed =
     (case map_of ds y of
        None \<Rightarrow> (Inl TypeError, ds)
      | Some domY \<Rightarrow>
          if find_support cs x valueX y domY = None
          then
            (case map_of ds x of
               None \<Rightarrow> (Inl TypeError, ds)
             | Some domX \<Rightarrow>
                 riv_loop x y cs rest (AList.update x (filter (\<lambda>v. v \<noteq> valueX) domX) ds) True)
          else riv_loop x y cs rest ds removed)"

definition removeInconsistentValues :: "csp \<Rightarrow> var \<Rightarrow> var \<Rightarrow> (error + bool) \<times> csp" where
  "removeInconsistentValues c x y =
     (case map_of (domains c) x of
        None \<Rightarrow> (Inl TypeError, c)
      | Some domX \<Rightarrow>
          (case riv_loop x y (constraints c) domX (domains c) False of
             (r, ds) \<Rightarrow> (r, c\<lparr>domains := ds\<rparr>)))"

text \<open>
  \<open>computeNeighbours\<close>. One round of its loop: when \<open>csp.neighbours[a]\<close> is falsy, which it
  is exactly when \<open>a\<close> is no own key and no name of \<open>Object.prototype\<close>, the entry \<open>[b]\<close> is
  written; otherwise \<open>b\<close> is pushed, which throws when what was read is an inherited
  property and no array. The loop stops at the exception with the index as built so far.
\<close>

fun add_neighbour ::
    "(var \<times> var list) list \<Rightarrow> var \<times> var \<Rightarrow> error + (var \<times> var list) list" where
  "add_neighbour nb (a, b) =
     (case map_of nb a of
        None \<Rightarrow> if a \<in> set object_prototype then Inl TypeError else Inr (AList.update a [b] nb)
      | Some ns \<Rightarrow> Inr (AList.update a (ns @ [b]) nb))"

fun add_neighbours ::
    "(var \<times> var list) list \<Rightarrow> (var \<times> var) list \<Rightarrow> error option \<times> (var \<times> var list) list" where
  "add_neighbours nb [] = (None, nb)"
| "add_neighbours nb (p # ps) =
     (case add_neighbour nb p of
        Inl e \<Rightarrow> (Some e, nb)
      | Inr nb' \<Rightarrow> add_neighbours nb' ps)"

text \<open>The function returns the exception, if any, and the instance as mutated.\<close>

definition computeNeighbours :: "csp \<Rightarrow> error option \<times> csp" where
  "computeNeighbours c =
     (case arcs c of
        None \<Rightarrow> (None, c)
      | Some as \<Rightarrow>
          (case neighbours c of
             Some nb \<Rightarrow> (None, c)
           | None \<Rightarrow>
               (case add_neighbours [] as of
                  (e, nb) \<Rightarrow> (e, c\<lparr>neighbours := Some nb\<rparr>))))"

subsection \<open>Termination of the queue\<close>

text \<open>
  A round of the queue either removes a value from a domain or leaves the instance as it
  is and shortens the queue.
\<close>

lemma riv_loop_size_le:
  "riv_loop x y cs vals ds removed = (Inr r, ds') \<Longrightarrow> dsize ds' \<le> dsize ds"
proof (induction vals arbitrary: ds removed)
  case Nil
  then show ?case by simp
next
  case (Cons valueX rest)
  from Cons.prems obtain domY where dy: "map_of ds y = Some domY"
    by (auto split: option.splits)
  show ?case
  proof (cases "find_support cs x valueX y domY = None")
    case False
    with Cons dy show ?thesis by simp
  next
    case True
    with Cons.prems dy obtain domX where dx: "map_of ds x = Some domX"
      by (auto split: option.splits)
    let ?ds = "AList.update x (filter (\<lambda>v. v \<noteq> valueX) domX) ds"
    from True Cons.prems dy dx have "riv_loop x y cs rest ?ds True = (Inr r, ds')" by simp
    from Cons.IH [OF this] have "dsize ds' \<le> dsize ?ds" .
    moreover have "dsize ?ds \<le> dsize ds"
      using dsize_update [OF dx, of "filter (\<lambda>v. v \<noteq> valueX) domX"]
        length_filter_le [of "\<lambda>v. v \<noteq> valueX" domX] by linarith
    ultimately show ?thesis by simp
  qed
qed

lemma riv_loop_removed_True:
  "riv_loop x y cs vals ds True = (Inr r, ds') \<Longrightarrow> r"
  by (induction vals arbitrary: ds) (auto split: option.splits if_splits)

lemma riv_loop_size_less:
  "riv_loop x y cs vals ds False = (Inr True, ds') \<Longrightarrow> map_of ds x = Some domX
     \<Longrightarrow> set vals \<subseteq> set domX \<Longrightarrow> dsize ds' < dsize ds"
proof (induction vals)
  case Nil
  then show ?case by simp
next
  case (Cons valueX rest)
  from Cons.prems obtain domY where dy: "map_of ds y = Some domY"
    by (auto split: option.splits)
  show ?case
  proof (cases "find_support cs x valueX y domY = None")
    case False
    with Cons dy show ?thesis by simp
  next
    case True
    let ?ds = "AList.update x (filter (\<lambda>v. v \<noteq> valueX) domX) ds"
    from True Cons.prems dy have "riv_loop x y cs rest ?ds True = (Inr True, ds')" by simp
    from riv_loop_size_le [OF this] have "dsize ds' \<le> dsize ?ds" .
    moreover have "dsize ?ds < dsize ds"
      using dsize_update [OF Cons.prems(2), of "filter (\<lambda>v. v \<noteq> valueX) domX"]
        length_filter_neq_less [of valueX domX] Cons.prems(3) by fastforce
    ultimately show ?thesis by simp
  qed
qed

lemma riv_loop_not_removed:
  "riv_loop x y cs vals ds removed = (Inr False, ds') \<Longrightarrow> ds' = ds"
proof (induction vals arbitrary: removed)
  case Nil
  then show ?case by simp
next
  case (Cons valueX rest)
  then show ?case
    by (auto split: option.splits if_splits dest: riv_loop_removed_True)
qed

lemma removeInconsistentValues_size:
  assumes "removeInconsistentValues c x y = (Inr removed, c')"
  shows "if removed then dsize (domains c') < dsize (domains c) else c' = c"
proof -
  from assms obtain domX ds where dx: "map_of (domains c) x = Some domX"
    and run: "riv_loop x y (constraints c) domX (domains c) False = (Inr removed, ds)"
    and c': "c' = c\<lparr>domains := ds\<rparr>"
    by (auto simp: removeInconsistentValues_def split: option.splits prod.splits)
  show ?thesis
  proof (cases removed)
    case True
    with run riv_loop_size_less [OF _ dx subset_refl] c' show ?thesis by simp
  next
    case False
    with run riv_loop_not_removed c' show ?thesis by auto
  qed
qed

text \<open>
  The \<open>while (queue.length)\<close> loop of \<open>arcConsistency\<close>. Reading \<open>csp.neighbours[x]\<close> throws
  when \<open>x\<close> has no entry in the neighbour index.
\<close>

function ac3_loop :: "csp \<Rightarrow> (var \<times> var) list \<Rightarrow> (error + bool) \<times> csp" where
  "ac3_loop c [] = (Inr False, c)"
| "ac3_loop c ((x, y) # queue) =
     (case removeInconsistentValues c x y of
        (Inl e, c') \<Rightarrow> (Inl e, c')
      | (Inr removed, c') \<Rightarrow>
          if removed then
            (case map_of (domains c') x of
               None \<Rightarrow> (Inl TypeError, c')
             | Some domX \<Rightarrow>
                 if domX = [] then (Inr True, c')
                 else
                   (case neighbours c' of
                      None \<Rightarrow> (Inl TypeError, c')
                    | Some nb \<Rightarrow>
                        (case map_of nb x of
                           None \<Rightarrow> (Inl TypeError, c')
                         | Some ns \<Rightarrow> ac3_loop c' (queue @ map (\<lambda>b. (b, x)) ns))))
          else ac3_loop c' queue)"
  by pat_completeness auto
termination
proof (relation "measures [\<lambda>(c, queue). dsize (domains c), \<lambda>(c, queue). length queue]", goal_cases)
  case 1
  show ?case by simp
next
  case (2 c x y queue r c' removed domX nb ns)
  then have "removeInconsistentValues c x y = (Inr True, c')" by simp
  from removeInconsistentValues_size [OF this] show ?case by simp
next
  case (3 c x y queue r c' removed)
  then have "removeInconsistentValues c x y = (Inr False, c')" by simp
  from removeInconsistentValues_size [OF this] show ?case by simp
qed

text \<open>\<open>arcConsistency\<close> returns whether a domain became empty, and the instance as mutated.\<close>

definition arcConsistency :: "csp \<Rightarrow> (error + bool) \<times> csp" where
  "arcConsistency c =
     (case arcs c of
        None \<Rightarrow> (Inl MustProvideArcs, c)
      | Some as \<Rightarrow>
          (case computeNeighbours c of
             (Some e, c') \<Rightarrow> (Inl e, c')
           | (None, c') \<Rightarrow> ac3_loop c' as))"


section \<open>recursiveBacktracking\<close>

text \<open>
  The search decides which CSP instance is mutated: it passes the instance it was given to
  the validator only, and hands \<open>arcConsistency\<close> and \<open>forwardChecking\<close> copies made with
  \<open>_.cloneDeep\<close>. To state that, the instances live in a store: \<open>heap\<close> is the list of the
  instances allocated so far, a reference is an index into it, \<open>_.cloneDeep\<close> allocates a new
  instance at the end, and what \<open>arcConsistency\<close> and \<open>forwardChecking\<close> do to the instance
  they are given is written back at its reference. (The copies \<open>forwardChecking\<close> makes for
  its own recursive calls are reachable from nowhere once it returns and are not kept.)
  The state holds the global \<open>debugCounter\<close> too, which counts the validations of the search.
\<close>

record state =
  heap :: "csp list"
  debugCounter :: nat

definition cloneDeep :: "state \<Rightarrow> nat \<Rightarrow> nat \<times> state" where
  "cloneDeep s r = (length (heap s), s\<lparr>heap := heap s @ [heap s ! r]\<rparr>)"

text \<open>
  The block \<open>if (options.arcConsistency) { csp = _.cloneDeep(csp); if (arcConsistency(csp))
  return; }\<close>. Its result is \<open>Inl e\<close> when \<open>arcConsistency\<close> throws, \<open>Inr None\<close> at the
  \<open>return;\<close>, and otherwise \<open>Inr (Some csp)\<close> with the reference the variable \<open>csp\<close> holds
  from there on.
\<close>

definition arcConsistency_step :: "state \<Rightarrow> nat \<Rightarrow> solverOptions \<Rightarrow> (error + nat option) \<times> state" where
  "arcConsistency_step s csp options =
     (if opt_arcConsistency options then
        (case cloneDeep s csp of
           (csp', s1) \<Rightarrow>
             (case arcConsistency (heap s1 ! csp') of
                (r, c) \<Rightarrow>
                  (case r of
                     Inl e \<Rightarrow> (Inl e, s1\<lparr>heap := (heap s1)[csp' := c]\<rparr>)
                   | Inr wipeout \<Rightarrow>
                       if wipeout then (Inr None, s1\<lparr>heap := (heap s1)[csp' := c]\<rparr>)
                       else (Inr (Some csp'), s1\<lparr>heap := (heap s1)[csp' := c]\<rparr>))))
      else (Inr (Some csp), s))"

text \<open>
  The statements \<open>let newCsp = _.cloneDeep(csp); if (options.forwardChecking) { if
  (forwardChecking(newCsp, unassignedVariable, value)) { return; } }\<close>, with the same
  reading of the result.
\<close>

definition forwardChecking_step ::
    "state \<Rightarrow> nat \<Rightarrow> solverOptions \<Rightarrow> var \<Rightarrow> val \<Rightarrow> (error + nat option) \<times> state" where
  "forwardChecking_step s csp options unassignedVariable value =
     (case cloneDeep s csp of
        (newCsp, s1) \<Rightarrow>
          if opt_forwardChecking options then
            (case forwardChecking (heap s1 ! newCsp) unassignedVariable value of
               (r, c) \<Rightarrow>
                 (case r of
                    Inl e \<Rightarrow> (Inl e, s1\<lparr>heap := (heap s1)[newCsp := c]\<rparr>)
                  | Inr wipeout \<Rightarrow>
                      if truthy wipeout then (Inr None, s1\<lparr>heap := (heap s1)[newCsp := c]\<rparr>)
                      else (Inr (Some newCsp), s1\<lparr>heap := (heap s1)[newCsp := c]\<rparr>)))
          else (Inr (Some newCsp), s1))"

text \<open>
  The recursion of the search may go on for ever (when all variables are assigned, the
  number of keys of the assignment differs from the number of variables and the domains
  have a key \<open>"undefined"\<close>), so the function takes fuel, one unit for each level of the
  recursion that has to pick a variable, and returns \<open>None\<close> when it runs out. Otherwise
  it returns the result and the state: \<open>Inl e\<close> for an exception, \<open>Inr None\<close> for
  \<open>undefined\<close>, \<open>Inr (Some a)\<close> for the assignment \<open>a\<close>.

  When \<open>find\<close> finds no unassigned variable, \<open>unassignedVariable\<close> is \<open>undefined\<close>, and used
  as a property key it is the string \<open>"undefined"\<close>. \<open>rb_values\<close> is the loop
  \<open>for (const value of csp.domains[unassignedVariable])\<close>.
\<close>

fun recursiveBacktracking ::
    "nat \<Rightarrow> state \<Rightarrow> nat \<Rightarrow> assignment \<Rightarrow> solverOptions
      \<Rightarrow> ((error + assignment option) \<times> state) option"
  and rb_values ::
    "nat \<Rightarrow> state \<Rightarrow> nat \<Rightarrow> assignment \<Rightarrow> solverOptions \<Rightarrow> var \<Rightarrow> val list
      \<Rightarrow> ((error + assignment option) \<times> state) option" where
  "recursiveBacktracking fuel s csp assignment options =
     (if length assignment = length (variables (heap s ! csp)) then Some (Inr (Some assignment), s)
      else
        (case fuel of
           0 \<Rightarrow> None
         | Suc fuel' \<Rightarrow>
             (case arcConsistency_step s csp options of
                (Inl e, s1) \<Rightarrow> Some (Inl e, s1)
              | (Inr None, s1) \<Rightarrow> Some (Inr None, s1)
              | (Inr (Some csp1), s1) \<Rightarrow>
                  (let unassignedVariable =
                         (case find (\<lambda>variable. read assignment variable = Absent)
                                 (variables (heap s1 ! csp1)) of
                            Some variable \<Rightarrow> variable
                          | None \<Rightarrow> ''undefined'')
                   in case map_of (domains (heap s1 ! csp1)) unassignedVariable of
                        None \<Rightarrow> Some (Inl TypeError, s1)
                      | Some values \<Rightarrow>
                          rb_values fuel' s1 csp1 assignment options unassignedVariable values))))"
| "rb_values fuel s csp assignment options unassignedVariable [] = Some (Inr None, s)"
| "rb_values fuel s csp assignment options unassignedVariable (value # rest) =
     (let newAssignment = AList.update unassignedVariable value assignment;
          s1 = s\<lparr>debugCounter := debugCounter s + 1\<rparr>
      in if validateConstraints newAssignment (constraints (heap s1 ! csp)) False then
           (case forwardChecking_step s1 csp options unassignedVariable value of
              (Inl e, s2) \<Rightarrow> Some (Inl e, s2)
            | (Inr None, s2) \<Rightarrow> Some (Inr None, s2)
            | (Inr (Some newCsp), s2) \<Rightarrow>
                (case recursiveBacktracking fuel s2 newCsp newAssignment options of
                   None \<Rightarrow> None
                 | Some (Inl e, s3) \<Rightarrow> Some (Inl e, s3)
                 | Some (Inr (Some result), s3) \<Rightarrow> Some (Inr (Some result), s3)
                 | Some (Inr None, s3) \<Rightarrow>
                     rb_values fuel s3 csp assignment options unassignedVariable rest))
         else rb_values fuel s1 csp assignment options unassignedVariable rest)"


section \<open>The failure case of the repository's tests\<close>

text \<open>
  \<open>const AustraliaFailureCase = _.cloneDeep(Australia); forwardChecking(AustraliaFailureCase,
  "WA", "red"); forwardChecking(AustraliaFailureCase, "Q", "green");\<close>
\<close>

definition AustraliaFailureCase :: csp where
  "AustraliaFailureCase =
     snd (forwardChecking (snd (forwardChecking Australia ''WA'' (Str ''red''))) ''Q'' (Str ''green''))"

section \<open>Notions used in the properties\<close>

text \<open>
  \<open>violated asg c\<close>: the loop body of \<open>validateConstraints\<close> for the constraint \<open>c\<close>
  executes \<open>return false\<close>. Whether it does is independent of the flag \<open>ranOnce\<close>.
\<close>

fun violated :: "assignment \<Rightarrow> constraint \<Rightarrow> bool" where
  "violated asg (MUST_BE_DISTINCT vs) = (must_be_distinct asg vs False = None)"
| "violated asg (MUST_SATISFY t) = (must_satisfy asg t False = None)"

text \<open>
  \<open>doms_le after before\<close>: no variable has a domain after that had none before, and every
  variable that had a domain has one whose values are among those it had.
\<close>

definition doms_le :: "doms \<Rightarrow> doms \<Rightarrow> bool" where
  "doms_le after before \<longleftrightarrow>
     (\<forall>u. case map_of before u of
             None \<Rightarrow> map_of after u = None
           | Some d \<Rightarrow> (\<exists>d'. map_of after u = Some d' \<and> set d' \<subseteq> set d))"

text \<open>
  A value \<open>v\<close> of \<open>x\<close> is supported by \<open>y\<close> when \<open>find_support\<close> finds a value in the
  domain of \<open>y\<close>. The arc \<open>(x, y)\<close> is consistent, \<open>arc_ok\<close>, when
  \<open>removeInconsistentValues\<close> removes nothing and leaves the instance as it is.
\<close>

definition supported :: "constraint list \<Rightarrow> doms \<Rightarrow> var \<Rightarrow> var \<Rightarrow> val \<Rightarrow> bool" where
  "supported cs ds x y v \<longleftrightarrow>
     (\<exists>domY. map_of ds y = Some domY \<and> find_support cs x v y domY \<noteq> None)"

definition arc_ok :: "csp \<Rightarrow> var \<Rightarrow> var \<Rightarrow> bool" where
  "arc_ok c x y \<longleftrightarrow> removeInconsistentValues c x y = (Inr False, c)"

text \<open>
  \<open>nb_covers nbo as\<close>: the neighbour index is there and lists \<open>b\<close> among the neighbours
  of \<open>a\<close> for every arc \<open>(a, b)\<close> of \<open>as\<close>.
\<close>

definition nb_covers :: "(var \<times> var list) list option \<Rightarrow> (var \<times> var) list \<Rightarrow> bool" where
  "nb_covers nbo as \<longleftrightarrow>
     (\<exists>nb. nbo = Some nb \<and> (\<forall>(a, b)\<in>set as. \<exists>ns. map_of nb a = Some ns \<and> b \<in> set ns))"

text \<open>
  \<open>asg_inv\<close>: the keys of an assignment are distinct, and they are all variables of the
  problem, or all variables of the problem are among them. \<open>solution\<close>: the assignment
  gives every variable a value and passes non-strict validation.
\<close>

definition asg_inv :: "assignment \<Rightarrow> var list \<Rightarrow> bool" where
  "asg_inv a vars \<longleftrightarrow>
     distinct (map fst a) \<and> (set (map fst a) \<subseteq> set vars \<or> set vars \<subseteq> set (map fst a))"

definition solution :: "assignment \<Rightarrow> csp \<Rightarrow> bool" where
  "solution a c \<longleftrightarrow>
     (\<forall>v\<in>set (variables c). map_of a v \<noteq> None) \<and> validateConstraints a (constraints c) False"

section \<open>Properties of the validator\<close>

text \<open>When a loop over a distinctness constraint leaves with \<open>return false\<close>.\<close>

lemma distinct_inner_None:
  "distinct_inner asg a bs r = None \<longleftrightarrow>
     read asg a \<noteq> Absent \<and> (\<exists>b\<in>set bs. read asg b = read asg a)"
  by (induction bs arbitrary: r) auto

lemma distinct_outer_None:
  "distinct_outer asg as bs r = None \<longleftrightarrow>
     (\<exists>a\<in>set as. read asg a \<noteq> Absent \<and> (\<exists>b\<in>set bs. read asg b = read asg a))"
proof (induction as arbitrary: r)
  case Nil
  show ?case by simp
next
  case (Cons a as)
  show ?case
  proof (cases "distinct_inner asg a bs r")
    case None
    then show ?thesis using distinct_inner_None [of asg a bs r] by auto
  next
    case (Some r')
    then have "\<not> (read asg a \<noteq> Absent \<and> (\<exists>b\<in>set bs. read asg b = read asg a))"
      using distinct_inner_None [of asg a bs r] by simp
    then show ?thesis using Some Cons.IH [of r'] by auto
  qed
qed

lemma must_be_distinct_None:
  "must_be_distinct asg vs r = None \<longleftrightarrow>
     (\<exists>a\<in>set (butlast vs). read asg a \<noteq> Absent \<and>
        (\<exists>b\<in>set (tl vs). read asg b = read asg a))"
  by (simp add: must_be_distinct_def distinct_outer_None)

lemma must_satisfy_None:
  "must_satisfy asg t r = None \<longleftrightarrow>
     (\<forall>k\<in>set (map fst t). read asg k \<noteq> Absent) \<and>
     (\<exists>k\<in>set (map fst t). read asg k = read t k) \<and>
     (\<exists>k\<in>set (map fst t). read asg k \<noteq> read t k)"
  by (auto simp: must_satisfy_def Let_def list_ex_iff)

lemma must_be_distinct_None_flag:
  "must_be_distinct asg vs r = None \<longleftrightarrow> must_be_distinct asg vs r' = None"
  by (simp add: must_be_distinct_None)

lemma must_satisfy_None_flag:
  "must_satisfy asg t r = None \<longleftrightarrow> must_satisfy asg t r' = None"
  by (simp add: must_satisfy_None)

lemma validate_loop_nonstrict:
  "validate_loop asg cs False r \<longleftrightarrow> (\<forall>c\<in>set cs. \<not> violated asg c)"
proof (induction asg cs "False" r rule: validate_loop.induct)
  case (1 asg ranOnce)
  show ?case by simp
next
  case (2 asg vs cs ranOnce)
  show ?case
  proof (cases "must_be_distinct asg vs ranOnce")
    case None
    then show ?thesis using must_be_distinct_None_flag [of asg vs ranOnce False] by simp
  next
    case (Some r')
    then have "must_be_distinct asg vs False \<noteq> None"
      using must_be_distinct_None_flag [of asg vs ranOnce False] by simp
    then show ?thesis using Some 2 by simp
  qed
next
  case (3 asg t cs ranOnce)
  show ?case
  proof (cases "must_satisfy asg t ranOnce")
    case None
    then show ?thesis using must_satisfy_None_flag [of asg t ranOnce False] by simp
  next
    case (Some r')
    then have "must_satisfy asg t False \<noteq> None"
      using must_satisfy_None_flag [of asg t ranOnce False] by simp
    then show ?thesis using Some 3 by simp
  qed
qed

lemma validateConstraints_nonstrict:
  "validateConstraints asg cs False \<longleftrightarrow> (\<forall>c\<in>set cs. \<not> violated asg c)"
  by (simp add: validateConstraints_def validate_loop_nonstrict)

text \<open>Reading a key that is no name of \<open>Object.prototype\<close>.\<close>

lemma read_own:
  "k \<notin> set object_prototype \<Longrightarrow> read asg k = (case map_of asg k of None \<Rightarrow> Absent | Some v \<Rightarrow> Own v)"
  by (simp add: read_def split: option.splits)

lemma read_Absent_iff:
  "k \<notin> set object_prototype \<Longrightarrow> read asg k = Absent \<longleftrightarrow> map_of asg k = None"
  by (simp add: read_own split: option.splits)

lemma read_eq_iff:
  "k \<notin> set object_prototype \<Longrightarrow> read asg k = read t k \<longleftrightarrow> map_of asg k = map_of t k"
  by (simp add: read_own split: option.splits)

subsection \<open>Conditional satisfaction\<close>

text \<open>
  Claim C4 as stated fails at two inputs. With the target
  \<open>{lion: true, today: "Thursday", unicorn: false}\<close> and the assignment
  \<open>{lion: true, today: "Monday"}\<close>, two target variables are present, \<open>lion\<close> equals its
  required value and \<open>today\<close> differs from its own, and the validator still returns true:
  \<open>unicorn\<close> is not assigned, so the constraint is skipped. With the target
  \<open>{toString: 1, x: 2}\<close> and the assignment \<open>{x: 2}\<close>, the only target variable the assignment
  holds equals its required value, and the validator returns false: reading \<open>toString\<close>
  from the assignment gives the inherited function, which is not \<open>undefined\<close> and differs
  from 1.
\<close>

theorem must_satisfy_partly_present_counterexample:
  "validateConstraints
     [(''lion'', Bool True), (''today'', Str ''Monday'')]
     [MUST_SATISFY [(''lion'', Bool True), (''today'', Str ''Thursday''), (''unicorn'', Bool False)]]
     False = True
   \<and> map_of [(''lion'', Bool True), (''today'', Str ''Monday'')] ''lion'' = Some (Bool True)
   \<and> map_of [(''lion'', Bool True), (''today'', Str ''Monday'')] ''today'' = Some (Str ''Monday'')
   \<and> map_of [(''lion'', Bool True), (''today'', Str ''Thursday''), (''unicorn'', Bool False)] ''lion''
       = Some (Bool True)
   \<and> map_of [(''lion'', Bool True), (''today'', Str ''Thursday''), (''unicorn'', Bool False)] ''today''
       = Some (Str ''Thursday'')
   \<and> validateConstraints [(''x'', Num 2)] [MUST_SATISFY [(''toString'', Num 1), (''x'', Num 2)]] False
       = False
   \<and> map_of [(''x'', Num 2)] ''toString'' = None
   \<and> map_of [(''x'', Num 2)] ''x'' = Some (Num 2)"
  by (simp add: validateConstraints_def must_satisfy_def read_def object_prototype_def)

text \<open>
  Claim C4, amended: for a \<open>MUST_SATISFY\<close> constraint none of whose target variables is
  named like a property of \<open>Object.prototype\<close>, the constraint is skipped as soon as one of
  its target variables is missing from the assignment. It makes the validator return false
  exactly when all its target variables are assigned, one of them equals its required
  value and one of them differs from its required value. Stated for the constraint
  anywhere in a list of constraints: validation of the list succeeds if and only if
  validation of the other constraints succeeds and this constraint is not violated in that
  sense.
\<close>

theorem validateConstraints_MUST_SATISFY:
  assumes "set (map fst t) \<inter> set object_prototype = {}"
  shows "validateConstraints asg (cs1 @ MUST_SATISFY t # cs2) False \<longleftrightarrow>
     validateConstraints asg (cs1 @ cs2) False \<and>
     \<not> ((\<forall>k\<in>set (map fst t). map_of asg k \<noteq> None) \<and>
        (\<exists>k\<in>set (map fst t). map_of asg k = map_of t k) \<and>
        (\<exists>k\<in>set (map fst t). map_of asg k \<noteq> map_of t k))"
proof -
  have own: "k \<notin> set object_prototype" if "k \<in> set (map fst t)" for k
    using assms that by blast
  have "must_satisfy asg t False = None \<longleftrightarrow>
     (\<forall>k\<in>set (map fst t). map_of asg k \<noteq> None) \<and>
     (\<exists>k\<in>set (map fst t). map_of asg k = map_of t k) \<and>
     (\<exists>k\<in>set (map fst t). map_of asg k \<noteq> map_of t k)"
    unfolding must_satisfy_None
    using own by (simp add: read_Absent_iff read_eq_iff cong: ball_cong bex_cong)
  then show ?thesis
    unfolding validateConstraints_nonstrict by auto
qed

text \<open>
  The spec's example for C4: against the target \<open>{lion: true, today: "Thursday"}\<close>, the
  assignment \<open>{lion: true, today: "Monday"}\<close> is violated, as the theorem says.
\<close>

theorem validateConstraints_MUST_SATISFY_witness:
  "set (map fst [(''lion'', Bool True), (''today'', Str ''Thursday'')]) \<inter> set object_prototype = {}
   \<and> validateConstraints [(''lion'', Bool True), (''today'', Str ''Monday'')]
     ([] @ MUST_SATISFY [(''lion'', Bool True), (''today'', Str ''Thursday'')] # []) False = False
   \<and> validateConstraints [(''lion'', Bool True), (''today'', Str ''Monday'')] ([] @ []) False = True"
proof -
  have h: "set (map fst [(''lion'', Bool True), (''today'', Str ''Thursday'')])
      \<inter> set object_prototype = {}"
    by (simp add: object_prototype_def)
  from validateConstraints_MUST_SATISFY
    [OF h, of "[(''lion'', Bool True), (''today'', Str ''Monday'')]" "[]" "[]"] h
  show ?thesis by (simp add: validateConstraints_def)
qed

subsection \<open>Distinctness\<close>

text \<open>
  For a constraint over two variables the only pair of indices is \<open>i = 0\<close>, \<open>j = 1\<close>: the
  validator returns false exactly when reading both variables from the assignment gives
  the same, and not \<open>undefined\<close>.
\<close>

lemma validateConstraints_distinct_pair:
  "validateConstraints asg [MUST_BE_DISTINCT [a, b]] False = False \<longleftrightarrow>
     read asg a \<noteq> Absent \<and> read asg b = read asg a"
  by (simp add: validateConstraints_nonstrict must_be_distinct_None)

text \<open>
  Claim C5 at a constraint over three variables. The inner index starts at 1 whatever the
  outer index is, so for \<open>i = j = 1\<close> the second variable is compared with itself: the
  assignment \<open>{a: 1, b: 2, c: 3}\<close>, whose values are pairwise distinct, fails validation
  against \<open>MUST_BE_DISTINCT [a, b, c]\<close>.
\<close>

theorem validateConstraints_distinct_three:
  "validateConstraints [(''a'', Num 1), (''b'', Num 2), (''c'', Num 3)]
     [MUST_BE_DISTINCT [''a'', ''b'', ''c'']] False = False"
  by code_simp

section \<open>Properties of forwardChecking\<close>

text \<open>
  No call returns \<open>true\<close>: a wipeout ends the call with \<open>return;\<close>, whose value
  \<open>undefined\<close> is falsy, so \<open>find\<close> never finds a recursive call with a truthy result.
\<close>

lemma forwardChecking_never_true:
  "fst (forwardChecking c variable value) \<noteq> Inr (Boolean True)"
  "\<forall>p. fc_find c ps \<noteq> Inr (Some p)"
proof (induction c variable "value" and c ps rule: forwardChecking_fc_find.induct)
  case (1 c variable "value")
  obtain r ds where pr: "fc_prune c variable value = (r, ds)"
    by (cases "fc_prune c variable value")
  show ?case
  proof (cases r)
    case (Inl e)
    with pr show ?thesis by simp
  next
    case (Inr found)
    show ?thesis
    proof (cases found)
      case None
      with pr Inr show ?thesis by simp
    next
      case (Some props)
      show ?thesis
      proof (cases "props = []")
        case True
        with pr Inr Some show ?thesis by simp
      next
        case False
        from "1.IH" [OF pr [symmetric] Inr Some False]
        have "\<forall>p. fc_find (c\<lparr>domains := ds\<rparr>) props \<noteq> Inr (Some p)" .
        with pr Inr Some False show ?thesis
          by (auto split: sum.splits)
      qed
    qed
  qed
next
  case (2 c)
  show ?case by simp
next
  case (3 c variable "value" rest)
  show ?case
  proof (cases "fst (forwardChecking c variable value)")
    case (Inl e)
    then show ?thesis by simp
  next
    case (Inr r)
    with "3.IH"(1) have nt: "\<not> truthy r" by (cases r) auto
    from "3.IH"(2) [OF Inr nt] Inr nt show ?thesis by simp
  qed
qed

lemma forwardChecking_not_truthy:
  "fst (forwardChecking c variable value) = Inr r \<Longrightarrow> \<not> truthy r"
  using forwardChecking_never_true(1) [of c variable "value"] by (cases r) auto

text \<open>
  Claim C2 at two inputs. With domains \<open>x: [1]\<close>, \<open>y: [1]\<close> and \<open>x\<close>, \<open>y\<close> distinct, the
  check of \<open>x = 1\<close> would empty the domain of \<open>y\<close>: the call returns \<open>undefined\<close>, not \<open>true\<close>.
  The second input is the second call of the repository's test,
  \<open>forwardChecking(AustraliaFailureCase, "Q", "green")\<close> after the check of \<open>WA = red\<close>: it
  leaves \<open>SA\<close> and \<open>NT\<close> with the single value \<open>blue\<close> and records both for propagation; the
  recursive check of \<open>SA = blue\<close>, on a copy of the instance as pruned, would empty the domain
  of \<open>NT\<close> and returns \<open>undefined\<close>; the outer call returns \<open>false\<close>.
\<close>

theorem forwardChecking_wipeout_not_true:
  "fst (forwardChecking
      \<lparr>variables = [''x'', ''y''],
       domains = [(''x'', [Num 1]), (''y'', [Num 1])],
       constraints = [MUST_BE_DISTINCT [''x'', ''y'']],
       arcs = None, neighbours = None\<rparr> ''x'' (Num 1)) = Inr Undefined
   \<and> fc_prune (snd (forwardChecking Australia ''WA'' (Str ''red''))) ''Q'' (Str ''green'')
       = (Inr (Some [(''SA'', Str ''blue''), (''NT'', Str ''blue'')]), domains AustraliaFailureCase)
   \<and> fst (forwardChecking AustraliaFailureCase ''SA'' (Str ''blue'')) = Inr Undefined
   \<and> fst (forwardChecking (snd (forwardChecking Australia ''WA'' (Str ''red''))) ''Q'' (Str ''green''))
       = Inr (Boolean False)"
  by code_simp

subsection \<open>Domains only shrink\<close>

lemma doms_le_refl: "doms_le ds ds"
  by (auto simp: doms_le_def split: option.splits)

lemma doms_le_trans: "doms_le c b \<Longrightarrow> doms_le b a \<Longrightarrow> doms_le c a"
  unfolding doms_le_def
  apply (rule allI)
  subgoal for u
    apply (erule allE [of _ u])+
    apply (auto split: option.splits)
    done
  done

lemma doms_le_update:
  "map_of ds v = Some d \<Longrightarrow> set d' \<subseteq> set d \<Longrightarrow> doms_le (AList.update v d' ds) ds"
  by (auto simp: doms_le_def update_conv' split: option.splits)

lemma fc_others_le: "fc_others value vs ds props = (r, ds') \<Longrightarrow> doms_le ds' ds"
proof (induction vs arbitrary: ds props)
  case Nil
  then show ?case by (simp add: doms_le_refl)
next
  case (Cons v vs)
  show ?case
  proof (cases "map_of ds v")
    case None
    with Cons.prems show ?thesis by (simp add: doms_le_refl)
  next
    case (Some domain)
    show ?thesis
    proof (cases "value \<in> set domain \<and> length domain \<noteq> 1")
      case True
      let ?ds = "AList.update v (filter (\<lambda>x. x \<noteq> value) domain) ds"
      from True Some Cons.prems obtain props1 where "fc_others value vs ?ds props1 = (r, ds')"
        by (auto simp: Let_def)
      from Cons.IH [OF this] have "doms_le ds' ?ds" .
      moreover have "doms_le ?ds ds" using Some by (intro doms_le_update) auto
      ultimately show ?thesis by (rule doms_le_trans)
    next
      case False
      with Some Cons show ?thesis by (auto simp: doms_le_refl split: if_splits)
    qed
  qed
qed

lemma fc_constraints_le:
  "fc_constraints variable value cs ds props = (r, ds') \<Longrightarrow> doms_le ds' ds"
proof (induction variable "value" cs ds props rule: fc_constraints.induct)
  case (1 variable "value" ds props)
  then show ?case by (simp add: doms_le_refl)
next
  case (2 variable "value" vs cs ds props)
  show ?case
  proof (cases "variable \<in> set vs")
    case False
    with 2 show ?thesis by simp
  next
    case True
    obtain r1 d1 where o: "fc_others value (filter (\<lambda>v. v \<noteq> variable) vs) ds props = (r1, d1)"
      by (cases "fc_others value (filter (\<lambda>v. v \<noteq> variable) vs) ds props")
    from fc_others_le [OF o] have le1: "doms_le d1 ds" .
    show ?thesis
    proof (cases "\<exists>p1. r1 = Inr (Some p1)")
      case True
      then obtain p1 where r1: "r1 = Inr (Some p1)" by blast
      with o \<open>variable \<in> set vs\<close> "2.prems"
      have "fc_constraints variable value cs d1 p1 = (r, ds')" by simp
      from "2.IH"(1) [OF \<open>variable \<in> set vs\<close> o [symmetric] r1 refl this] le1
      show ?thesis by (rule doms_le_trans)
    next
      case False
      with o \<open>variable \<in> set vs\<close> "2.prems" have "ds' = d1"
        by (auto split: sum.splits option.splits)
      with le1 show ?thesis by simp
    qed
  qed
next
  case (3 variable "value" target cs ds props)
  then show ?case by simp
qed

lemma forwardChecking_domains:
  "domains (snd (forwardChecking c variable value)) = snd (fc_prune c variable value)"
  by (auto split: prod.splits sum.splits option.splits)

text \<open>
  Claim C7: when the value \<open>x\<close> is in the domain of \<open>v\<close>, then after the call
  \<open>forwardChecking(csp, v, x)\<close>, whatever it returns (in particular \<open>false\<close>, no wipeout),
  no variable has gained a domain, and every variable that had a domain has one whose
  values are among those it had before.
\<close>

theorem forwardChecking_domains_shrink:
  assumes "forwardChecking c v x = (r, c')"
    and "map_of (domains c) v = Some d" and "x \<in> set d"
  shows "case map_of (domains c) u of
           None \<Rightarrow> map_of (domains c') u = None
         | Some d0 \<Rightarrow> (\<exists>d'. map_of (domains c') u = Some d' \<and> set d' \<subseteq> set d0)"
proof -
  obtain r1 where "fc_prune c v x = (r1, domains c')"
    using forwardChecking_domains [of c v x] assms(1) by (cases "fc_prune c v x") simp
  then have "doms_le (domains c') (AList.update v [x] (domains c))"
    unfolding fc_prune_def by (rule fc_constraints_le)
  moreover have "doms_le (AList.update v [x] (domains c)) (domains c)"
    using assms(2,3) by (intro doms_le_update) auto
  ultimately have "doms_le (domains c') (domains c)" by (rule doms_le_trans)
  then show ?thesis unfolding doms_le_def by blast
qed

text \<open>
  The first forward check of the repository's test, \<open>forwardChecking(Australia, "WA", "red")\<close>:
  it returns \<open>false\<close> and removes \<open>red\<close> from the domains of \<open>NT\<close> and \<open>SA\<close>.
\<close>

theorem forwardChecking_domains_shrink_witness:
  "fst (forwardChecking Australia ''WA'' (Str ''red'')) = Inr (Boolean False)
   \<and> map_of (domains Australia) ''WA'' = Some [Str ''red'', Str ''green'', Str ''blue'']
   \<and> Str ''red'' \<in> set [Str ''red'', Str ''green'', Str ''blue'']
   \<and> map_of (domains (snd (forwardChecking Australia ''WA'' (Str ''red'')))) ''NT''
       = Some [Str ''green'', Str ''blue'']
   \<and> set [Str ''green'', Str ''blue''] \<subseteq> set [Str ''red'', Str ''green'', Str ''blue'']"
proof -
  have h1: "forwardChecking Australia ''WA'' (Str ''red'')
             = (fst (forwardChecking Australia ''WA'' (Str ''red'')),
                snd (forwardChecking Australia ''WA'' (Str ''red'')))"
    by simp
  have h2: "map_of (domains Australia) ''WA'' = Some [Str ''red'', Str ''green'', Str ''blue'']"
    by code_simp
  have h3: "Str ''red'' \<in> set [Str ''red'', Str ''green'', Str ''blue'']"
    by simp
  have r: "fst (forwardChecking Australia ''WA'' (Str ''red'')) = Inr (Boolean False)"
    by code_simp
  have nt: "map_of (domains Australia) ''NT'' = Some [Str ''red'', Str ''green'', Str ''blue'']"
    by code_simp
  have after: "map_of (domains (snd (forwardChecking Australia ''WA'' (Str ''red'')))) ''NT''
       = Some [Str ''green'', Str ''blue'']"
    by code_simp
  from forwardChecking_domains_shrink [OF h1 h2 h3, of "''NT''"] nt after r h2
  show ?thesis by simp
qed


section \<open>Properties of arcConsistency\<close>

lemma riv_loop_False_iff:
  "riv_loop x y cs vals ds False = (Inr False, ds') \<longleftrightarrow>
     ds' = ds \<and> (\<forall>v\<in>set vals. supported cs ds x y v)"
proof (induction vals)
  case Nil
  show ?case by auto
next
  case (Cons valueX rest)
  show ?case
  proof (cases "map_of ds y")
    case None
    then show ?thesis by (auto simp: supported_def)
  next
    case (Some domY)
    show ?thesis
    proof (cases "find_support cs x valueX y domY = None")
      case True
      then have "\<not> supported cs ds x y valueX" using Some by (simp add: supported_def)
      moreover have "riv_loop x y cs (valueX # rest) ds False \<noteq> (Inr False, ds')"
        using True Some by (auto split: option.splits dest: riv_loop_removed_True)
      ultimately show ?thesis by simp
    next
      case False
      then obtain s where fs: "find_support cs x valueX y domY = Some s" by auto
      then have "supported cs ds x y valueX" using Some by (simp add: supported_def)
      with fs Some Cons.IH show ?thesis by simp
    qed
  qed
qed

lemma riv_loop_frame:
  "riv_loop x y cs vals ds removed = (r, ds') \<Longrightarrow> u \<noteq> x \<Longrightarrow> map_of ds' u = map_of ds u"
proof (induction vals arbitrary: ds removed)
  case Nil
  then show ?case by simp
next
  case (Cons valueX rest)
  show ?case
  proof (cases "map_of ds y")
    case None
    with Cons.prems show ?thesis by simp
  next
    case (Some domY)
    show ?thesis
    proof (cases "find_support cs x valueX y domY = None")
      case False
      with Some Cons show ?thesis by simp
    next
      case True
      show ?thesis
      proof (cases "map_of ds x")
        case None
        with True Some Cons.prems show ?thesis by simp
      next
        case (Some domX)
        let ?ds = "AList.update x (filter (\<lambda>v. v \<noteq> valueX) domX) ds"
        from True Some \<open>map_of ds y = Some domY\<close> Cons.prems(1)
        have "riv_loop x y cs rest ?ds True = (r, ds')" by simp
        from Cons.IH [OF this Cons.prems(2)] Cons.prems(2) show ?thesis
          by (simp add: update_conv')
      qed
    qed
  qed
qed

lemma riv_loop_le: "riv_loop x y cs vals ds removed = (r, ds') \<Longrightarrow> doms_le ds' ds"
proof (induction vals arbitrary: ds removed)
  case Nil
  then show ?case by (simp add: doms_le_refl)
next
  case (Cons valueX rest)
  show ?case
  proof (cases "map_of ds y")
    case None
    with Cons.prems show ?thesis by (simp add: doms_le_refl)
  next
    case (Some domY)
    show ?thesis
    proof (cases "find_support cs x valueX y domY = None")
      case False
      with Some Cons show ?thesis by simp
    next
      case True
      show ?thesis
      proof (cases "map_of ds x")
        case None
        with True Some Cons.prems show ?thesis by (simp add: doms_le_refl)
      next
        case (Some domX)
        let ?ds = "AList.update x (filter (\<lambda>v. v \<noteq> valueX) domX) ds"
        from True Some \<open>map_of ds y = Some domY\<close> Cons.prems(1)
        have "riv_loop x y cs rest ?ds True = (r, ds')" by simp
        from Cons.IH [OF this] have "doms_le ds' ?ds" .
        moreover have "doms_le ?ds ds" using Some by (intro doms_le_update) auto
        ultimately show ?thesis by (rule doms_le_trans)
      qed
    qed
  qed
qed

lemma doms_leD:
  assumes "doms_le a b" and "map_of b u = Some d"
  shows "\<exists>d'. map_of a u = Some d' \<and> set d' \<subseteq> set d"
proof -
  from assms(1) have "case map_of b u of None \<Rightarrow> map_of a u = None
      | Some d \<Rightarrow> (\<exists>d'. map_of a u = Some d' \<and> set d' \<subseteq> set d)"
    unfolding doms_le_def by blast
  with assms(2) show ?thesis by simp
qed

lemma supported_cong:
  "map_of ds' y = map_of ds y \<Longrightarrow> supported cs ds' x y v = supported cs ds x y v"
  by (simp add: supported_def)

lemma riv_loop_kept:
  "riv_loop x y cs vals ds removed = (Inr r, ds') \<Longrightarrow> x \<noteq> y \<Longrightarrow> map_of ds x = Some domX
     \<Longrightarrow> \<exists>domX'. map_of ds' x = Some domX' \<and>
           (\<forall>v\<in>set domX'. v \<in> set domX \<and> (v \<in> set vals \<longrightarrow> supported cs ds x y v))"
proof (induction vals arbitrary: ds removed domX)
  case Nil
  then show ?case by simp
next
  case (Cons valueX rest)
  from Cons.prems(1) obtain domY where dy: "map_of ds y = Some domY"
    by (auto split: option.splits)
  show ?case
  proof (cases "find_support cs x valueX y domY = None")
    case False
    then obtain s where fs: "find_support cs x valueX y domY = Some s" by auto
    with dy have sup: "supported cs ds x y valueX" by (simp add: supported_def)
    from fs dy Cons.prems(1) have "riv_loop x y cs rest ds removed = (Inr r, ds')" by simp
    from Cons.IH [OF this Cons.prems(2,3)] sup show ?thesis by auto
  next
    case True
    let ?d = "filter (\<lambda>v. v \<noteq> valueX) domX"
    let ?ds = "AList.update x ?d ds"
    from True dy Cons.prems(1,3) have run: "riv_loop x y cs rest ?ds True = (Inr r, ds')" by simp
    have dx1: "map_of ?ds x = Some ?d" by (simp add: update_conv')
    have "map_of ?ds y = map_of ds y" using Cons.prems(2) by (simp add: update_conv')
    then have sup: "\<And>v. supported cs ?ds x y v = supported cs ds x y v" by (rule supported_cong)
    from Cons.IH [OF run Cons.prems(2) dx1] obtain domX' where
      "map_of ds' x = Some domX'"
      "\<forall>v\<in>set domX'. v \<in> set ?d \<and> (v \<in> set rest \<longrightarrow> supported cs ?ds x y v)"
      by blast
    then show ?thesis using sup by auto
  qed
qed

lemma csp_domains_same: "c\<lparr>domains := ds\<rparr> = c \<longleftrightarrow> ds = domains c"
  by (cases c) auto

lemma arc_ok_iff:
  "arc_ok c x y \<longleftrightarrow>
     (\<exists>domX. map_of (domains c) x = Some domX \<and>
        (\<forall>v\<in>set domX. supported (constraints c) (domains c) x y v))"
proof (cases "map_of (domains c) x")
  case None
  then show ?thesis by (simp add: arc_ok_def removeInconsistentValues_def)
next
  case (Some domX)
  obtain r ds where run: "riv_loop x y (constraints c) domX (domains c) False = (r, ds)"
    by (cases "riv_loop x y (constraints c) domX (domains c) False")
  have "arc_ok c x y \<longleftrightarrow> r = Inr False \<and> ds = domains c"
    using Some run by (simp add: arc_ok_def removeInconsistentValues_def csp_domains_same)
  also have "\<dots> \<longleftrightarrow> riv_loop x y (constraints c) domX (domains c) False = (Inr False, domains c)"
    using run riv_loop_not_removed [of x y "constraints c" domX "domains c" False ds] by auto
  also have "\<dots> \<longleftrightarrow> (\<forall>v\<in>set domX. supported (constraints c) (domains c) x y v)"
    by (simp add: riv_loop_False_iff)
  finally show ?thesis using Some by simp
qed

lemma removeInconsistentValues_fields:
  "removeInconsistentValues c x y = (r, c') \<Longrightarrow>
     constraints c' = constraints c \<and> arcs c' = arcs c \<and> neighbours c' = neighbours c \<and>
     variables c' = variables c"
  by (auto simp: removeInconsistentValues_def split: option.splits prod.splits)

lemma removeInconsistentValues_frame:
  assumes "removeInconsistentValues c x y = (r, c')"
  shows "u \<noteq> x \<Longrightarrow> map_of (domains c') u = map_of (domains c) u"
    and "doms_le (domains c') (domains c)"
  using assms riv_loop_frame riv_loop_le
  by (auto simp: removeInconsistentValues_def doms_le_refl split: option.splits prod.splits)

lemma removeInconsistentValues_revised:
  assumes "removeInconsistentValues c x y = (Inr r, c')" and "x \<noteq> y"
  shows "arc_ok c' x y"
proof -
  from assms(1) obtain domX ds where dx: "map_of (domains c) x = Some domX"
    and run: "riv_loop x y (constraints c) domX (domains c) False = (Inr r, ds)"
    and c': "c' = c\<lparr>domains := ds\<rparr>"
    by (auto simp: removeInconsistentValues_def split: option.splits prod.splits)
  from riv_loop_kept [OF run assms(2) dx] obtain domX' where
    dx': "map_of ds x = Some domX'"
    and kept: "\<forall>v\<in>set domX'. v \<in> set domX \<and> (v \<in> set domX \<longrightarrow> supported (constraints c) (domains c) x y v)"
    by blast
  have "map_of ds y = map_of (domains c) y"
    using riv_loop_frame [OF run] assms(2) by simp
  then have "\<And>v. supported (constraints c) ds x y v = supported (constraints c) (domains c) x y v"
    by (rule supported_cong)
  with kept have "\<forall>v\<in>set domX'. supported (constraints c) ds x y v" by simp
  with dx' c' show ?thesis by (simp add: arc_ok_iff)
qed

lemma removeInconsistentValues_preserves:
  assumes "removeInconsistentValues c x y = (r, c')" and "arc_ok c u w" and "w \<noteq> x"
  shows "arc_ok c' u w"
proof -
  from assms(2) obtain domU where du: "map_of (domains c) u = Some domU"
    and sup: "\<forall>v\<in>set domU. supported (constraints c) (domains c) u w v"
    by (auto simp: arc_ok_iff)
  from doms_leD [OF removeInconsistentValues_frame(2) [OF assms(1)] du]
  obtain domU' where du': "map_of (domains c') u = Some domU'" and sub: "set domU' \<subseteq> set domU"
    by blast
  have "map_of (domains c') w = map_of (domains c) w"
    using removeInconsistentValues_frame(1) [OF assms(1) assms(3)] .
  then have "\<And>v. supported (constraints c) (domains c') u w v
      = supported (constraints c) (domains c) u w v"
    by (rule supported_cong)
  with sup sub have "\<forall>v\<in>set domU'. supported (constraints c') (domains c') u w v"
    using removeInconsistentValues_fields [OF assms(1)] by auto
  with du' show ?thesis by (auto simp: arc_ok_iff)
qed

lemma ac3_loop_fields:
  "ac3_loop c queue = (r, c') \<Longrightarrow>
     constraints c' = constraints c \<and> arcs c' = arcs c \<and> neighbours c' = neighbours c \<and>
     variables c' = variables c"
proof (induction c queue rule: ac3_loop.induct)
  case (1 c)
  then show ?case by simp
next
  case (2 c x y queue)
  obtain r1 c1 where riv: "removeInconsistentValues c x y = (r1, c1)"
    by (cases "removeInconsistentValues c x y")
  note f = removeInconsistentValues_fields [OF riv]
  show ?case
  proof (cases r1)
    case (Inl e)
    with riv "2.prems" f show ?thesis by simp
  next
    case (Inr removed)
    show ?thesis
    proof (cases removed)
      case False
      with riv Inr "2.prems" have "ac3_loop c1 queue = (r, c')" by simp
      from "2.IH"(2) [OF riv [symmetric] Inr False this] f show ?thesis by simp
    next
      case True
      show ?thesis
      proof (cases "\<exists>domX nb ns. map_of (domains c1) x = Some domX \<and> domX \<noteq> [] \<and>
                      neighbours c1 = Some nb \<and> map_of nb x = Some ns")
        case False
        with riv Inr True "2.prems" have "c' = c1"
          by (auto split: option.splits if_splits)
        with f show ?thesis by simp
      next
        case True
        then obtain domX nb ns where h: "map_of (domains c1) x = Some domX" "domX \<noteq> []"
          "neighbours c1 = Some nb" "map_of nb x = Some ns" by blast
        with riv Inr \<open>removed\<close> "2.prems"
        have "ac3_loop c1 (queue @ map (\<lambda>b. (b, x)) ns) = (r, c')" by simp
        from "2.IH"(1) [OF riv [symmetric] Inr \<open>removed\<close> h(1) h(2) h(3) h(4) this] f
        show ?thesis by simp
      qed
    qed
  qed
qed

lemma ac3_loop_fixpoint:
  assumes "ac3_loop c queue = (Inr False, c')"
    and "\<forall>(u, w)\<in>set as. (w, u) \<in> set as"
    and "nb_covers (neighbours c) as"
    and "\<forall>(u, w)\<in>set as. (u, w) \<in> set queue \<or> arc_ok c u w"
  shows "\<forall>(u, w)\<in>set as. arc_ok c' u w"
  using assms
proof (induction c queue rule: ac3_loop.induct)
  case (1 c)
  then show ?case by simp
next
  case (2 c x y queue)
  obtain r1 c1 where riv: "removeInconsistentValues c x y = (r1, c1)"
    by (cases "removeInconsistentValues c x y")
  note f = removeInconsistentValues_fields [OF riv]
  from riv "2.prems"(1) obtain removed where r1: "r1 = Inr removed"
    by (cases r1) auto
  show ?case
  proof (cases removed)
    case False
    with riv r1 "2.prems"(1) have run: "ac3_loop c1 queue = (Inr False, c')" by simp
    from riv r1 False removeInconsistentValues_size [of c x y False c1] have same: "c1 = c"
      by simp
    have ok: "arc_ok c x y" using riv r1 False same by (simp add: arc_ok_def)
    have inv: "\<forall>(u, w)\<in>set as. (u, w) \<in> set queue \<or> arc_ok c1 u w"
      using "2.prems"(4) ok same by auto
    from "2.IH"(2) [OF riv [symmetric] r1 False run "2.prems"(2) _ inv] "2.prems"(3) same
    show ?thesis by simp
  next
    case True
    from riv r1 True "2.prems"(1) obtain domX nb ns where
      h: "map_of (domains c1) x = Some domX" "domX \<noteq> []"
         "neighbours c1 = Some nb" "map_of nb x = Some ns"
      and run: "ac3_loop c1 (queue @ map (\<lambda>b. (b, x)) ns) = (Inr False, c')"
      by (auto split: option.splits if_splits)
    have cov: "nb_covers (neighbours c1) as" using "2.prems"(3) f by simp
    have "arc_ok c1 u w"
      if uw: "(u, w) \<in> set as" and notq: "(u, w) \<notin> set (queue @ map (\<lambda>b. (b, x)) ns)"
      for u w
      proof (cases "w = x")
        case True
        from uw "2.prems"(2) True have "(x, u) \<in> set as" by auto
        with cov h(3,4) have "u \<in> set ns" by (auto simp: nb_covers_def)
        with True notq show ?thesis by auto
      next
        case False
        from uw "2.prems"(4) notq have "(u, w) = (x, y) \<or> arc_ok c u w" by auto
        then show ?thesis
        proof
          assume "(u, w) = (x, y)"
          with False riv r1 removeInconsistentValues_revised [of c x y removed c1]
          show ?thesis by auto
        next
          assume "arc_ok c u w"
          from removeInconsistentValues_preserves [OF riv this False] show ?thesis .
        qed
      qed
    then have inv:
      "\<forall>(u, w)\<in>set as. (u, w) \<in> set (queue @ map (\<lambda>b. (b, x)) ns) \<or> arc_ok c1 u w"
      by blast
    from "2.IH"(1) [OF riv [symmetric] r1 True h(1) h(2) h(3) h(4) run "2.prems"(2) cov inv]
    show ?thesis .
  qed
qed

lemma ac3_loop_stable:
  "\<forall>(u, w)\<in>set queue. arc_ok c u w \<Longrightarrow> ac3_loop c queue = (Inr False, c)"
  by (induction queue) (auto simp: arc_ok_def)

lemma add_neighbour_keeps:
  "add_neighbour nb p = Inr nb' \<Longrightarrow> map_of nb a = Some ns0 \<Longrightarrow> b \<in> set ns0
     \<Longrightarrow> \<exists>ns. map_of nb' a = Some ns \<and> b \<in> set ns"
  by (cases p) (auto simp: update_conv' split: option.splits if_splits)

lemma add_neighbour_adds:
  "add_neighbour nb (a, b) = Inr nb' \<Longrightarrow> \<exists>ns. map_of nb' a = Some ns \<and> b \<in> set ns"
  by (auto simp: update_conv' split: option.splits if_splits)

lemma map_of_add_neighbours:
  "add_neighbours nb as = (None, nb')
     \<Longrightarrow> (\<exists>ns0. map_of nb a = Some ns0 \<and> b \<in> set ns0) \<or> (a, b) \<in> set as
     \<Longrightarrow> \<exists>ns. map_of nb' a = Some ns \<and> b \<in> set ns"
proof (induction as arbitrary: nb)
  case Nil
  then show ?case by simp
next
  case (Cons p as)
  from Cons.prems(1) obtain nb1 where p: "add_neighbour nb p = Inr nb1"
    and run: "add_neighbours nb1 as = (None, nb')"
    by (auto split: sum.splits)
  have "(\<exists>ns0. map_of nb1 a = Some ns0 \<and> b \<in> set ns0) \<or> (a, b) \<in> set as"
    using Cons.prems(2) add_neighbour_keeps [OF p, of a _ b] add_neighbour_adds [of nb a b nb1] p
    by auto
  from Cons.IH [OF run this] show ?case .
qed

lemma computeNeighbours_covers:
  "arcs c = Some as \<Longrightarrow> neighbours c = None \<Longrightarrow> computeNeighbours c = (None, c0)
     \<Longrightarrow> nb_covers (neighbours c0) as"
  using map_of_add_neighbours [of "[]" as _]
  by (auto simp: computeNeighbours_def nb_covers_def split: prod.splits)

lemma computeNeighbours_fields:
  "computeNeighbours c = (e, c0) \<Longrightarrow>
     constraints c0 = constraints c \<and> variables c0 = variables c
     \<and> arcs c0 = arcs c \<and> domains c0 = domains c"
  by (auto simp: computeNeighbours_def split: option.splits prod.splits)

text \<open>
  Claim C6 as stated fails when the arc list is not symmetric. With \<open>x: [1]\<close>, \<open>y: [1, 2]\<close>,
  \<open>z: [2]\<close>, \<open>x\<close>, \<open>y\<close> distinct, \<open>y\<close>, \<open>z\<close> distinct and the arcs \<open>(x, y)\<close>, \<open>(y, z)\<close>, the
  first run removes 2 from the domain of \<open>y\<close> after the arc \<open>(x, y)\<close> was checked, and does
  not check it again, since \<open>x\<close> is no neighbour of \<open>y\<close>; it returns false. The second run
  removes 1 from the domain of \<open>x\<close>, which becomes empty, and returns true.
\<close>

theorem arcConsistency_not_idempotent_counterexample:
  "arcConsistency
     \<lparr>variables = [''x'', ''y'', ''z''],
      domains = [(''x'', [Num 1]), (''y'', [Num 1, Num 2]), (''z'', [Num 2])],
      constraints = [MUST_BE_DISTINCT [''x'', ''y''], MUST_BE_DISTINCT [''y'', ''z'']],
      arcs = Some [(''x'', ''y''), (''y'', ''z'')], neighbours = None\<rparr>
   = (Inr False,
      \<lparr>variables = [''x'', ''y'', ''z''],
       domains = [(''x'', [Num 1]), (''y'', [Num 1]), (''z'', [Num 2])],
       constraints = [MUST_BE_DISTINCT [''x'', ''y''], MUST_BE_DISTINCT [''y'', ''z'']],
       arcs = Some [(''x'', ''y''), (''y'', ''z'')],
       neighbours = Some [(''x'', [''y'']), (''y'', [''z''])]\<rparr>)
   \<and> arcConsistency
     \<lparr>variables = [''x'', ''y'', ''z''],
      domains = [(''x'', [Num 1]), (''y'', [Num 1]), (''z'', [Num 2])],
      constraints = [MUST_BE_DISTINCT [''x'', ''y''], MUST_BE_DISTINCT [''y'', ''z'']],
      arcs = Some [(''x'', ''y''), (''y'', ''z'')],
      neighbours = Some [(''x'', [''y'']), (''y'', [''z''])]\<rparr>
   = (Inr True,
      \<lparr>variables = [''x'', ''y'', ''z''],
       domains = [(''x'', []), (''y'', [Num 1]), (''z'', [Num 2])],
       constraints = [MUST_BE_DISTINCT [''x'', ''y''], MUST_BE_DISTINCT [''y'', ''z'']],
       arcs = Some [(''x'', ''y''), (''y'', ''z'')],
       neighbours = Some [(''x'', [''y'']), (''y'', [''z''])]\<rparr>)"
  by code_simp

text \<open>
  Claim C6, amended: for a CSP whose arc list is symmetric (it holds \<open>(y, x)\<close> whenever it
  holds \<open>(x, y)\<close>, as the lists built with \<open>copyAndReverse\<close> do) and whose neighbour index
  is absent, or lists \<open>y\<close> among the neighbours of \<open>x\<close> for every arc \<open>(x, y)\<close>: if
  \<open>arcConsistency\<close> returns false, then a second run on the resulting instance returns false
  again and leaves the instance, so every domain, as it is.
\<close>

theorem arcConsistency_idempotent:
  assumes "arcs c = Some as"
    and "\<forall>(x, y)\<in>set as. (y, x) \<in> set as"
    and "neighbours c = None \<or> nb_covers (neighbours c) as"
    and "arcConsistency c = (Inr False, c')"
  shows "arcConsistency c' = (Inr False, c')"
proof -
  from assms(1,4) obtain c0 where cn: "computeNeighbours c = (None, c0)"
    and run: "ac3_loop c0 as = (Inr False, c')"
    by (auto simp: arcConsistency_def split: prod.splits option.splits)
  have cov: "nb_covers (neighbours c0) as"
  proof (cases "neighbours c")
    case None
    with assms(1) cn show ?thesis by (intro computeNeighbours_covers)
  next
    case (Some nb)
    with assms(1,3) cn show ?thesis by (simp add: computeNeighbours_def)
  qed
  have "\<forall>(u, w)\<in>set as. (u, w) \<in> set as \<or> arc_ok c0 u w" by auto
  from ac3_loop_fixpoint [OF run assms(2) cov this]
  have ok: "\<forall>(u, w)\<in>set as. arc_ok c' u w" .
  from ac3_loop_fields [OF run] computeNeighbours_fields [OF cn] cov assms(1)
  have "arcs c' = Some as" and "neighbours c' \<noteq> None"
    by (auto simp: nb_covers_def)
  then have "arcConsistency c' = ac3_loop c' as"
    by (auto simp: arcConsistency_def computeNeighbours_def)
  with ac3_loop_stable [OF ok] show ?thesis by simp
qed

text \<open>
  The Lion-Unicorn problem: the first run returns false and leaves one value in each domain,
  and the second run changes nothing.
\<close>

theorem arcConsistency_idempotent_witness:
  "arcs LionUnicorn = Some (copyAndReverse [(''lion'', ''today''), (''unicorn'', ''today'')])
   \<and> list_all (\<lambda>(x, y). (y, x) \<in> set (copyAndReverse [(''lion'', ''today''), (''unicorn'', ''today'')]))
        (copyAndReverse [(''lion'', ''today''), (''unicorn'', ''today'')])
   \<and> neighbours LionUnicorn = None
   \<and> fst (arcConsistency LionUnicorn) = Inr False
   \<and> domains (snd (arcConsistency LionUnicorn))
       = [(''today'', [Str ''Thursday'']), (''lion'', [Bool True]), (''unicorn'', [Bool False])]
   \<and> arcConsistency (snd (arcConsistency LionUnicorn))
       = (Inr False, snd (arcConsistency LionUnicorn))"
proof -
  let ?as = "copyAndReverse [(''lion'', ''today''), (''unicorn'', ''today'')]"
  have h1: "arcs LionUnicorn = Some ?as" by (simp add: LionUnicorn_def)
  have h2: "\<forall>(x, y)\<in>set ?as. (y, x) \<in> set ?as" by (simp add: copyAndReverse_def)
  have h3: "neighbours LionUnicorn = None \<or> nb_covers (neighbours LionUnicorn) ?as"
    by (simp add: LionUnicorn_def)
  have r: "fst (arcConsistency LionUnicorn) = Inr False" by code_simp
  then have h4: "arcConsistency LionUnicorn = (Inr False, snd (arcConsistency LionUnicorn))"
    by (simp add: prod_eq_iff)
  have d: "domains (snd (arcConsistency LionUnicorn))
       = [(''today'', [Str ''Thursday'']), (''lion'', [Bool True]), (''unicorn'', [Bool False])]"
    by code_simp
  from arcConsistency_idempotent [OF h1 h2 h3 h4] h1 h2 r d show ?thesis
    by (simp add: LionUnicorn_def list_all_iff)
qed


section \<open>Properties of recursiveBacktracking\<close>

declare recursiveBacktracking.simps [simp del]
declare forwardChecking.simps [simp del]

lemma arcConsistency_fields:
  "arcConsistency c = (r, c') \<Longrightarrow> constraints c' = constraints c \<and> variables c' = variables c"
proof (cases "arcs c")
  case None
  then show "arcConsistency c = (r, c') \<Longrightarrow> ?thesis" by (simp add: arcConsistency_def)
next
  case (Some as)
  obtain e c0 where cn: "computeNeighbours c = (e, c0)" by (cases "computeNeighbours c")
  assume run: "arcConsistency c = (r, c')"
  show ?thesis
  proof (cases e)
    case None
    with Some cn run have "ac3_loop c0 as = (r, c')" by (simp add: arcConsistency_def)
    from ac3_loop_fields [OF this] computeNeighbours_fields [OF cn] show ?thesis by simp
  next
    case (Some err)
    with \<open>arcs c = Some as\<close> cn run have "c' = c0" by (simp add: arcConsistency_def)
    with computeNeighbours_fields [OF cn] show ?thesis by simp
  qed
qed

lemma forwardChecking_fields:
  "forwardChecking c v x = (r, c') \<Longrightarrow> constraints c' = constraints c \<and> variables c' = variables c"
  by (auto simp: forwardChecking.simps split: prod.splits sum.splits option.splits if_splits)

subsection \<open>A search that does not return\<close>

text \<open>
  A CSP without variables whose domains have the key \<open>"undefined"\<close>, searched from the
  assignment \<open>{undefined: 1}\<close>: the assignment has one key and the CSP no variable, \<open>find\<close>
  finds nothing, the value 1 of the key \<open>"undefined"\<close> is assigned again, and the search
  calls itself with the same assignment. No amount of fuel is enough.
\<close>

lemma recursiveBacktracking_diverges:
  "variables (heap s ! r) = [] \<Longrightarrow> domains (heap s ! r) = [(''undefined'', [Num 1])]
     \<Longrightarrow> constraints (heap s ! r) = []
     \<Longrightarrow> recursiveBacktracking fuel s r [(''undefined'', Num 1)]
           \<lparr>opt_forwardChecking = False, opt_arcConsistency = False\<rparr> = None"
proof (induction fuel arbitrary: s r)
  case 0
  then show ?case by (simp add: recursiveBacktracking.simps)
next
  case (Suc fuel)
  let ?s2 = "s\<lparr>debugCounter := debugCounter s + 1, heap := heap s @ [heap s ! r]\<rparr>"
  have "recursiveBacktracking fuel ?s2 (length (heap s)) [(''undefined'', Num 1)]
           \<lparr>opt_forwardChecking = False, opt_arcConsistency = False\<rparr> = None"
    using Suc.prems by (intro Suc.IH) simp_all
  with Suc.prems show ?case
    by (simp add: recursiveBacktracking.simps [of "Suc fuel"] arcConsistency_step_def
        forwardChecking_step_def cloneDeep_def validateConstraints_def)
qed

subsection \<open>The store only grows\<close>

lemma arcConsistency_step_heap:
  "arcConsistency_step s r opts = (res, s') \<Longrightarrow> \<exists>cs. heap s' = heap s @ cs"
  by (auto simp: arcConsistency_step_def cloneDeep_def split: if_splits prod.splits sum.splits)

lemma arcConsistency_step_Some:
  assumes "arcConsistency_step s r opts = (Inr (Some r'), s')" and "r < length (heap s)"
  shows "r' < length (heap s') \<and> variables (heap s' ! r') = variables (heap s ! r)
     \<and> constraints (heap s' ! r') = constraints (heap s ! r)"
proof (cases "opt_arcConsistency opts")
  case False
  with assms show ?thesis by (simp add: arcConsistency_step_def)
next
  case True
  obtain res c where ac: "arcConsistency (heap s ! r) = (res, c)"
    by (cases "arcConsistency (heap s ! r)")
  with True assms(1) have "r' = length (heap s)" and "heap s' = heap s @ [c]"
    by (auto simp: arcConsistency_step_def cloneDeep_def split: sum.splits if_splits)
  with arcConsistency_fields [OF ac] show ?thesis by simp
qed

lemma forwardChecking_step_heap:
  "forwardChecking_step s r opts v x = (res, s') \<Longrightarrow> \<exists>cs. heap s' = heap s @ cs"
  by (auto simp: forwardChecking_step_def cloneDeep_def split: if_splits prod.splits sum.splits)

lemma forwardChecking_step_Some:
  assumes "forwardChecking_step s r opts v x = (Inr (Some r'), s')"
  shows "r' < length (heap s') \<and> variables (heap s' ! r') = variables (heap s ! r)
     \<and> constraints (heap s' ! r') = constraints (heap s ! r)"
proof (cases "opt_forwardChecking opts")
  case False
  with assms show ?thesis by (auto simp: forwardChecking_step_def cloneDeep_def)
next
  case True
  obtain res c where fc: "forwardChecking (heap s ! r) v x = (res, c)"
    by (cases "forwardChecking (heap s ! r) v x")
  with True assms(1) have "r' = length (heap s)" and "heap s' = heap s @ [c]"
    by (auto simp: forwardChecking_step_def cloneDeep_def split: sum.splits if_splits)
  with forwardChecking_fields [OF fc] show ?thesis by simp
qed

lemma rb_values_heap:
  assumes RB: "\<And>s r a res s'. recursiveBacktracking fuel s r a opts = Some (res, s')
                 \<Longrightarrow> \<exists>cs. heap s' = heap s @ cs"
  shows "rb_values fuel s r a opts v vals = Some (res, s') \<Longrightarrow> \<exists>cs. heap s' = heap s @ cs"
proof (induction vals arbitrary: s)
  case Nil
  then show ?case by simp
next
  case (Cons x rest)
  let ?a = "AList.update v x a"
  let ?s1 = "s\<lparr>debugCounter := debugCounter s + 1\<rparr>"
  show ?case
  proof (cases "validateConstraints ?a (constraints (heap ?s1 ! r)) False")
    case False
    with Cons.prems have "rb_values fuel ?s1 r a opts v rest = Some (res, s')"
      by (simp add: Let_def)
    from Cons.IH [OF this] show ?thesis by simp
  next
    case True
    obtain fr s2 where step: "forwardChecking_step ?s1 r opts v x = (fr, s2)"
      by (cases "forwardChecking_step ?s1 r opts v x")
    from forwardChecking_step_heap [OF step] obtain cs2 where h2: "heap s2 = heap s @ cs2"
      by auto
    show ?thesis
    proof (cases "\<exists>r2. fr = Inr (Some r2)")
      case False
      with True step Cons.prems have "s' = s2"
        by (auto simp: Let_def split: sum.splits option.splits)
      with h2 show ?thesis by simp
    next
      case True
      then obtain r2 where fr: "fr = Inr (Some r2)" by blast
      from \<open>validateConstraints ?a (constraints (heap ?s1 ! r)) False\<close> step fr Cons.prems
      obtain rr s3 where rec: "recursiveBacktracking fuel s2 r2 ?a opts = Some (rr, s3)"
        and rest: "(rr \<noteq> Inr None \<and> s' = s3) \<or>
                   (rr = Inr None \<and> rb_values fuel s3 r a opts v rest = Some (res, s'))"
        by (auto simp: Let_def split: option.splits sum.splits)
      from RB [OF rec] obtain cs3 where h3: "heap s3 = heap s2 @ cs3" by auto
      from rest show ?thesis
      proof
        assume "rr \<noteq> Inr None \<and> s' = s3"
        with h2 h3 show ?thesis by simp
      next
        assume "rr = Inr None \<and> rb_values fuel s3 r a opts v rest = Some (res, s')"
        with Cons.IH [of s3] obtain cs4 where "heap s' = heap s3 @ cs4" by auto
        with h2 h3 show ?thesis by simp
      qed
    qed
  qed
qed

lemma recursiveBacktracking_heap:
  "recursiveBacktracking fuel s r a opts = Some (res, s') \<Longrightarrow> \<exists>cs. heap s' = heap s @ cs"
proof (induction fuel arbitrary: s r a res s')
  case 0
  then show ?case by (simp add: recursiveBacktracking.simps split: if_splits)
next
  case (Suc fuel)
  show ?case
  proof (cases "length a = length (variables (heap s ! r))")
    case True
    with Suc.prems show ?thesis by (simp add: recursiveBacktracking.simps)
  next
    case False
    obtain ar s1 where step: "arcConsistency_step s r opts = (ar, s1)"
      by (cases "arcConsistency_step s r opts")
    from arcConsistency_step_heap [OF step] obtain cs1 where h1: "heap s1 = heap s @ cs1"
      by auto
    show ?thesis
    proof (cases "\<exists>r1. ar = Inr (Some r1)")
      case False
      with \<open>length a \<noteq> length (variables (heap s ! r))\<close> step Suc.prems have "s' = s1"
        by (auto simp: recursiveBacktracking.simps split: sum.splits option.splits)
      with h1 show ?thesis by simp
    next
      case True
      then obtain r1 where ar: "ar = Inr (Some r1)" by blast
      from \<open>length a \<noteq> length (variables (heap s ! r))\<close> step ar Suc.prems
      have "s' = s1 \<or> (\<exists>v vals. rb_values fuel s1 r1 a opts v vals = Some (res, s'))"
        by (auto simp: recursiveBacktracking.simps Let_def split: option.splits)
      then show ?thesis
      proof
        assume "s' = s1"
        with h1 show ?thesis by simp
      next
        assume "\<exists>v vals. rb_values fuel s1 r1 a opts v vals = Some (res, s')"
        then obtain v vals where "rb_values fuel s1 r1 a opts v vals = Some (res, s')" by blast
        then have "\<exists>cs. heap s' = heap s1 @ cs"
          by (rule rb_values_heap [rotated]) (erule Suc.IH)
        then obtain cs2 where "heap s' = heap s1 @ cs2" by blast
        with h1 show ?thesis by simp
      qed
    qed
  qed
qed

text \<open>
  Claim C9: whatever the options and the initial assignment, when a call of the search
  returns or throws, the instance it was called with is in the store as it was before the
  call: variables, domains, constraints, arcs (and the neighbour index) are unchanged. The
  calls of \<open>arcConsistency\<close> and \<open>forwardChecking\<close> have written to instances allocated
  during the call only.
\<close>

theorem recursiveBacktracking_leaves_csp:
  assumes "recursiveBacktracking fuel s r a opts = Some (res, s')" and "r < length (heap s)"
  shows "heap s' ! r = heap s ! r"
  using recursiveBacktracking_heap [OF assms(1)] assms(2) by (auto simp: nth_append)

text \<open>
  The Lion-Unicorn problem with the option \<open>arcConsistency\<close>: the problem at reference 0
  is as before, and the pruned domains are in the first copy, at reference 1.
\<close>

theorem recursiveBacktracking_leaves_csp_witness:
  "recursiveBacktracking 3 \<lparr>heap = [LionUnicorn], debugCounter = 0\<rparr> 0 []
       \<lparr>opt_forwardChecking = False, opt_arcConsistency = True\<rparr> \<noteq> None
   \<and> (0::nat) < length (heap \<lparr>heap = [LionUnicorn], debugCounter = 0\<rparr>)
   \<and> heap (snd (the (recursiveBacktracking 3 \<lparr>heap = [LionUnicorn], debugCounter = 0\<rparr> 0 []
       \<lparr>opt_forwardChecking = False, opt_arcConsistency = True\<rparr>))) ! 0 = LionUnicorn
   \<and> domains (heap (snd (the (recursiveBacktracking 3 \<lparr>heap = [LionUnicorn], debugCounter = 0\<rparr> 0 []
       \<lparr>opt_forwardChecking = False, opt_arcConsistency = True\<rparr>))) ! 1)
       = [(''today'', [Str ''Thursday'']), (''lion'', [Bool True]), (''unicorn'', [Bool False])]"
proof -
  let ?s = "\<lparr>heap = [LionUnicorn], debugCounter = 0\<rparr>"
  let ?run = "recursiveBacktracking 3 ?s 0 [] \<lparr>opt_forwardChecking = False, opt_arcConsistency = True\<rparr>"
  have ret: "?run \<noteq> None" by code_simp
  then have h1: "?run = Some (fst (the ?run), snd (the ?run))" by auto
  have h2: "(0::nat) < length (heap ?s)" by simp
  have pruned: "domains (heap (snd (the ?run)) ! 1)
       = [(''today'', [Str ''Thursday'']), (''lion'', [Bool True]), (''unicorn'', [Bool False])]"
    by code_simp
  from recursiveBacktracking_leaves_csp [OF h1 h2] ret pruned show ?thesis by simp
qed

subsection \<open>A complete initial assignment\<close>

text \<open>
  Claim C10: when the initial assignment has as many entries as the CSP has variables, the
  call returns it at once, whatever the fuel: no constraint is evaluated, and the state,
  the counter of validations included, is as before.
\<close>

theorem recursiveBacktracking_complete_initial:
  "length a = length (variables (heap s ! r))
     \<Longrightarrow> recursiveBacktracking fuel s r a opts = Some (Inr (Some a), s)"
  by (simp add: recursiveBacktracking.simps)


text \<open>
  The assignment \<open>{x: 1, y: 1}\<close> violates the constraint that \<open>x\<close> and \<open>y\<close> are distinct,
  and is returned, with no fuel.
\<close>

theorem recursiveBacktracking_complete_initial_witness:
  "length [(''x'', Num 1), (''y'', Num 1)]
     = length (variables (heap \<lparr>heap = [\<lparr>variables = [''x'', ''y''],
          domains = [(''x'', [Num 1, Num 2]), (''y'', [Num 1, Num 2])],
          constraints = [MUST_BE_DISTINCT [''x'', ''y'']],
          arcs = None, neighbours = None\<rparr>], debugCounter = 0\<rparr> ! 0))
   \<and> recursiveBacktracking 0
        \<lparr>heap = [\<lparr>variables = [''x'', ''y''],
          domains = [(''x'', [Num 1, Num 2]), (''y'', [Num 1, Num 2])],
          constraints = [MUST_BE_DISTINCT [''x'', ''y'']],
          arcs = None, neighbours = None\<rparr>], debugCounter = 0\<rparr> 0
        [(''x'', Num 1), (''y'', Num 1)] \<lparr>opt_forwardChecking = False, opt_arcConsistency = False\<rparr>
     = Some (Inr (Some [(''x'', Num 1), (''y'', Num 1)]),
        \<lparr>heap = [\<lparr>variables = [''x'', ''y''],
          domains = [(''x'', [Num 1, Num 2]), (''y'', [Num 1, Num 2])],
          constraints = [MUST_BE_DISTINCT [''x'', ''y'']],
          arcs = None, neighbours = None\<rparr>], debugCounter = 0\<rparr>)
   \<and> validateConstraints [(''x'', Num 1), (''y'', Num 1)] [MUST_BE_DISTINCT [''x'', ''y'']] False
       = False"
proof -
  let ?s = "\<lparr>heap = [\<lparr>variables = [''x'', ''y''],
          domains = [(''x'', [Num 1, Num 2]), (''y'', [Num 1, Num 2])],
          constraints = [MUST_BE_DISTINCT [''x'', ''y'']],
          arcs = None, neighbours = None\<rparr>], debugCounter = 0\<rparr>"
  have h: "length [(''x'', Num 1), (''y'', Num 1)] = length (variables (heap ?s ! 0))" by simp
  have v: "validateConstraints [(''x'', Num 1), (''y'', Num 1)] [MUST_BE_DISTINCT [''x'', ''y'']] False
       = False"
    by code_simp
  from recursiveBacktracking_complete_initial [OF h, of 0] h v show ?thesis by simp
qed

subsection \<open>Soundness\<close>

lemma complete_assigned:
  assumes "asg_inv a vars" and "length a = length vars" and "v \<in> set vars"
  shows "map_of a v \<noteq> None"
proof -
  have "set vars \<subseteq> set (map fst a)"
  proof (cases "set vars \<subseteq> set (map fst a)")
    case True
    then show ?thesis .
  next
    case False
    with assms(1) have sub: "set (map fst a) \<subseteq> set vars" and d: "distinct (map fst a)"
      by (auto simp: asg_inv_def)
    from d have "card (set (map fst a)) = length a" using distinct_card [of "map fst a"] by simp
    with assms(2) have "card (set vars) \<le> card (set (map fst a))"
      using card_length [of vars] by simp
    with sub have "set (map fst a) = set vars" by (intro card_seteq) auto
    then show ?thesis by simp
  qed
  with assms(3) have "v \<in> fst ` set a" by auto
  then show ?thesis by (simp add: map_of_eq_None_iff)
qed

lemma asg_inv_update:
  assumes "asg_inv a vars" and "v \<in> set vars \<or> set vars \<subseteq> set (map fst a)"
  shows "asg_inv (AList.update v x a) vars"
proof -
  have k: "set (map fst (AList.update v x a)) = insert v (set (map fst a))"
    using dom_update [of v x a] by simp
  from assms(1) have "distinct (map fst (AList.update v x a))"
    by (simp add: asg_inv_def distinct_update)
  moreover have "set (map fst (AList.update v x a)) \<subseteq> set vars
      \<or> set vars \<subseteq> set (map fst (AList.update v x a))"
    using assms unfolding k asg_inv_def by auto
  ultimately show ?thesis by (simp add: asg_inv_def)
qed

lemma solution_cong:
  "variables c' = variables c \<Longrightarrow> constraints c' = constraints c \<Longrightarrow> solution a c' = solution a c"
  by (simp add: solution_def)

lemma rb_values_sound:
  assumes RB: "\<And>s r a A s'. recursiveBacktracking fuel s r a opts = Some (Inr (Some A), s')
      \<Longrightarrow> r < length (heap s) \<Longrightarrow> asg_inv a (variables (heap s ! r))
      \<Longrightarrow> set (variables (heap s ! r)) \<inter> set object_prototype = {}
      \<Longrightarrow> length a \<noteq> length (variables (heap s ! r))
            \<or> validateConstraints a (constraints (heap s ! r)) False
      \<Longrightarrow> solution A (heap s ! r)"
  shows "rb_values fuel s r a opts v vals = Some (Inr (Some A), s')
     \<Longrightarrow> r < length (heap s) \<Longrightarrow> asg_inv a (variables (heap s ! r))
     \<Longrightarrow> v \<in> set (variables (heap s ! r)) \<or> set (variables (heap s ! r)) \<subseteq> set (map fst a)
     \<Longrightarrow> set (variables (heap s ! r)) \<inter> set object_prototype = {}
     \<Longrightarrow> solution A (heap s ! r)"
proof (induction vals arbitrary: s)
  case Nil
  then show ?case by simp
next
  case (Cons x rest)
  let ?a = "AList.update v x a"
  let ?s1 = "s\<lparr>debugCounter := debugCounter s + 1\<rparr>"
  have s1: "heap ?s1 = heap s" by simp
  show ?case
  proof (cases "validateConstraints ?a (constraints (heap ?s1 ! r)) False")
    case False
    with Cons.prems(1) have "rb_values fuel ?s1 r a opts v rest = Some (Inr (Some A), s')"
      by (simp add: Let_def)
    from Cons.IH [OF this] Cons.prems(2-5) show ?thesis by simp
  next
    case True
    obtain fr s2 where step: "forwardChecking_step ?s1 r opts v x = (fr, s2)"
      by (cases "forwardChecking_step ?s1 r opts v x")
    from forwardChecking_step_heap [OF step] obtain cs2 where h2: "heap s2 = heap s @ cs2"
      by auto
    from True step Cons.prems(1) obtain r2 where fr: "fr = Inr (Some r2)"
      by (auto simp: Let_def split: sum.splits option.splits)
    from True step fr Cons.prems(1)
    obtain rr s3 where rec: "recursiveBacktracking fuel s2 r2 ?a opts = Some (rr, s3)"
      and rest: "(rr = Inr (Some A) \<and> s' = s3) \<or>
                 (rr = Inr None \<and> rb_values fuel s3 r a opts v rest = Some (Inr (Some A), s'))"
      by (auto simp: Let_def split: option.splits sum.splits)
    from forwardChecking_step_Some [OF step [unfolded fr]]
    have r2: "r2 < length (heap s2)"
      and same: "variables (heap s2 ! r2) = variables (heap s ! r)"
                "constraints (heap s2 ! r2) = constraints (heap s ! r)"
      by simp_all
    from recursiveBacktracking_heap [OF rec] obtain cs3 where h3: "heap s3 = heap s2 @ cs3"
      by auto
    from rest show ?thesis
    proof
      assume "rr = Inr (Some A) \<and> s' = s3"
      with rec have "recursiveBacktracking fuel s2 r2 ?a opts = Some (Inr (Some A), s')" by simp
      from RB [OF this r2] same True asg_inv_update [OF Cons.prems(3,4)] Cons.prems(5)
      have "solution A (heap s2 ! r2)" by simp
      with same show ?thesis by (simp add: solution_def)
    next
      assume "rr = Inr None \<and> rb_values fuel s3 r a opts v rest = Some (Inr (Some A), s')"
      then have rv: "rb_values fuel s3 r a opts v rest = Some (Inr (Some A), s')" by simp
      have "heap s3 ! r = heap s ! r" and "r < length (heap s3)"
        using h2 h3 Cons.prems(2) by (auto simp: nth_append)
      with Cons.IH [OF rv] Cons.prems(2-5) show ?thesis by simp
    qed
  qed
qed

lemma recursiveBacktracking_sound:
  "recursiveBacktracking fuel s r a opts = Some (Inr (Some A), s')
     \<Longrightarrow> r < length (heap s) \<Longrightarrow> asg_inv a (variables (heap s ! r))
     \<Longrightarrow> set (variables (heap s ! r)) \<inter> set object_prototype = {}
     \<Longrightarrow> length a \<noteq> length (variables (heap s ! r))
           \<or> validateConstraints a (constraints (heap s ! r)) False
     \<Longrightarrow> solution A (heap s ! r)"
proof (induction fuel arbitrary: s r a A s')
  case 0
  then have "length a = length (variables (heap s ! r))" and "A = a"
    by (auto simp: recursiveBacktracking.simps split: if_splits)
  with 0 complete_assigned [of a "variables (heap s ! r)"] show ?case
    by (auto simp: solution_def)
next
  case (Suc fuel)
  show ?case
  proof (cases "length a = length (variables (heap s ! r))")
    case True
    with Suc.prems(1) have "A = a" by (simp add: recursiveBacktracking.simps)
    with True Suc.prems complete_assigned [of a "variables (heap s ! r)"] show ?thesis
      by (auto simp: solution_def)
  next
    case False
    obtain ar s1 where step: "arcConsistency_step s r opts = (ar, s1)"
      by (cases "arcConsistency_step s r opts")
    from False step Suc.prems(1) obtain r1 where ar: "ar = Inr (Some r1)"
      by (auto simp: recursiveBacktracking.simps split: sum.splits option.splits)
    let ?vars = "variables (heap s1 ! r1)"
    let ?v = "case find (\<lambda>variable. read a variable = Absent) ?vars of
                Some variable \<Rightarrow> variable | None \<Rightarrow> ''undefined''"
    from False step ar Suc.prems(1) obtain vals where
      rv: "rb_values fuel s1 r1 a opts ?v vals = Some (Inr (Some A), s')"
      by (auto simp: recursiveBacktracking.simps Let_def split: option.splits)
    from arcConsistency_step_Some [OF step [unfolded ar] Suc.prems(2)]
    have r1: "r1 < length (heap s1)"
      and same: "variables (heap s1 ! r1) = variables (heap s ! r)"
                "constraints (heap s1 ! r1) = constraints (heap s ! r)"
      by simp_all
    have v: "?v \<in> set ?vars \<or> set ?vars \<subseteq> set (map fst a)"
    proof (cases "find (\<lambda>variable. read a variable = Absent) ?vars")
      case None
      then have "\<forall>u\<in>set ?vars. read a u \<noteq> Absent" by (simp add: find_None_iff)
      moreover have "\<forall>u\<in>set ?vars. u \<notin> set object_prototype"
        using Suc.prems(4) same by auto
      ultimately have "\<forall>u\<in>set ?vars. map_of a u \<noteq> None"
        by (simp add: read_Absent_iff)
      then have "set ?vars \<subseteq> set (map fst a)"
        by (auto simp: map_of_eq_None_iff)
      then show ?thesis by simp
    next
      case (Some u)
      then have "u \<in> set ?vars" by (auto simp: find_Some_iff)
      with Some show ?thesis by simp
    qed
    from rv have "solution A (heap s1 ! r1)"
    proof (rule rb_values_sound [rotated])
      show "r1 < length (heap s1)" by (rule r1)
      show "asg_inv a ?vars" using Suc.prems(3) same by simp
      show "?v \<in> set ?vars \<or> set ?vars \<subseteq> set (map fst a)" by (rule v)
      show "set ?vars \<inter> set object_prototype = {}" using Suc.prems(4) same by simp
    next
      fix s r a A s'
      assume "recursiveBacktracking fuel s r a opts = Some (Inr (Some A), s')"
        "r < length (heap s)" "asg_inv a (variables (heap s ! r))"
        "set (variables (heap s ! r)) \<inter> set object_prototype = {}"
        "length a \<noteq> length (variables (heap s ! r))
           \<or> validateConstraints a (constraints (heap s ! r)) False"
      then show "solution A (heap s ! r)" by (rule Suc.IH)
    qed
    with same show ?thesis by (simp add: solution_def)
  qed
qed

text \<open>
  Claim C1 as stated fails at two inputs. An initial assignment that has as many entries as
  the CSP has variables is returned unchecked: with the variables \<open>x\<close>, \<open>y\<close>, \<open>w\<close>, the
  constraint that \<open>x\<close> and \<open>y\<close> are distinct and the initial assignment
  \<open>{x: 1, y: 1, z: 0}\<close>, the result is the initial assignment, which gives \<open>w\<close> no value and
  fails validation. And a variable named like a property of \<open>Object.prototype\<close> is never
  found unassigned: with the variables \<open>x\<close>, \<open>toString\<close>, the domains
  \<open>{x: [1], toString: [1], undefined: [5]}\<close>, no constraint and the empty initial assignment,
  the search assigns \<open>x\<close>, finds no unassigned variable, assigns the key \<open>"undefined"\<close> and
  returns \<open>{x: 1, undefined: 5}\<close>, which gives \<open>toString\<close> no value.
\<close>

theorem recursiveBacktracking_unsound_counterexample:
  "recursiveBacktracking 1
     \<lparr>heap = [\<lparr>variables = [''x'', ''y'', ''w''],
        domains = [(''x'', [Num 1, Num 2]), (''y'', [Num 1, Num 2]), (''w'', [Num 1, Num 2])],
        constraints = [MUST_BE_DISTINCT [''x'', ''y'']],
        arcs = None, neighbours = None\<rparr>], debugCounter = 0\<rparr> 0
     [(''x'', Num 1), (''y'', Num 1), (''z'', Num 0)]
     \<lparr>opt_forwardChecking = False, opt_arcConsistency = False\<rparr>
   = Some (Inr (Some [(''x'', Num 1), (''y'', Num 1), (''z'', Num 0)]),
      \<lparr>heap = [\<lparr>variables = [''x'', ''y'', ''w''],
        domains = [(''x'', [Num 1, Num 2]), (''y'', [Num 1, Num 2]), (''w'', [Num 1, Num 2])],
        constraints = [MUST_BE_DISTINCT [''x'', ''y'']],
        arcs = None, neighbours = None\<rparr>], debugCounter = 0\<rparr>)
   \<and> map_of [(''x'', Num 1), (''y'', Num 1), (''z'', Num 0)] ''w'' = None
   \<and> validateConstraints [(''x'', Num 1), (''y'', Num 1), (''z'', Num 0)]
        [MUST_BE_DISTINCT [''x'', ''y'']] False = False
   \<and> map_option fst (recursiveBacktracking 2
        \<lparr>heap = [\<lparr>variables = [''x'', ''toString''],
           domains = [(''x'', [Num 1]), (''toString'', [Num 1]), (''undefined'', [Num 5])],
           constraints = [],
           arcs = None, neighbours = None\<rparr>], debugCounter = 0\<rparr> 0 []
        \<lparr>opt_forwardChecking = False, opt_arcConsistency = False\<rparr>)
       = Some (Inr (Some [(''x'', Num 1), (''undefined'', Num 5)]))
   \<and> map_of [(''x'', Num 1), (''undefined'', Num 5)] ''toString'' = None"
  by code_simp

text \<open>
  Claim C1, amended: for a CSP in the store none of whose variables is named like a
  property of \<open>Object.prototype\<close>, every combination of options, and an initial assignment
  that assigns variables of the CSP only and either has a number of entries other than
  the number of variables (as the default, empty, assignment has when the CSP has a
  variable) or passes validation itself: when the search returns an assignment, that
  assignment gives a value to every variable of the CSP and passes \<open>validateConstraints\<close>
  with \<open>strict = false\<close> against the CSP's constraints.
\<close>

theorem recursiveBacktracking_result_valid:
  assumes "recursiveBacktracking fuel s r a opts = Some (Inr (Some A), s')"
    and "r < length (heap s)"
    and "set (variables (heap s ! r)) \<inter> set object_prototype = {}"
    and "distinct (map fst a)" and "set (map fst a) \<subseteq> set (variables (heap s ! r))"
    and "length a \<noteq> length (variables (heap s ! r))
           \<or> validateConstraints a (constraints (heap s ! r)) False"
  shows "(\<forall>v\<in>set (variables (heap s ! r)). map_of A v \<noteq> None)
     \<and> validateConstraints A (constraints (heap s ! r)) False"
proof -
  from assms(4,5) have "asg_inv a (variables (heap s ! r))" by (simp add: asg_inv_def)
  from recursiveBacktracking_sound [OF assms(1,2) this assms(3) assms(6)] show ?thesis
    by (simp add: solution_def)
qed

text \<open>In particular for the call with the default, empty, assignment.\<close>

lemma recursiveBacktracking_default_valid:
  assumes "recursiveBacktracking fuel s r [] opts = Some (Inr (Some A), s')"
    and "r < length (heap s)"
    and "set (variables (heap s ! r)) \<inter> set object_prototype = {}"
    and "variables (heap s ! r) \<noteq> []"
  shows "solution A (heap s ! r)"
  using assms(1,2) _ assms(3)
  by (rule recursiveBacktracking_sound) (simp_all add: asg_inv_def assms(4))

text \<open>The Lion-Unicorn problem, from the empty assignment, with the default options.\<close>

theorem recursiveBacktracking_result_valid_witness:
  "map_option fst (recursiveBacktracking 3 \<lparr>heap = [LionUnicorn], debugCounter = 0\<rparr> 0 []
       \<lparr>opt_forwardChecking = False, opt_arcConsistency = False\<rparr>)
     = Some (Inr (Some [(''today'', Str ''Thursday''), (''lion'', Bool True), (''unicorn'', Bool False)]))
   \<and> set (variables LionUnicorn) \<inter> set object_prototype = {}
   \<and> list_all (\<lambda>v. map_of [(''today'', Str ''Thursday''), (''lion'', Bool True), (''unicorn'', Bool False)] v
                  \<noteq> None) (variables LionUnicorn)
   \<and> validateConstraints [(''today'', Str ''Thursday''), (''lion'', Bool True), (''unicorn'', Bool False)]
        (constraints LionUnicorn) False"
proof -
  let ?s = "\<lparr>heap = [LionUnicorn], debugCounter = 0\<rparr>"
  let ?A = "[(''today'', Str ''Thursday''), (''lion'', Bool True), (''unicorn'', Bool False)]"
  let ?run = "recursiveBacktracking 3 ?s 0 [] \<lparr>opt_forwardChecking = False, opt_arcConsistency = False\<rparr>"
  have r: "map_option fst ?run = Some (Inr (Some ?A))" by code_simp
  then obtain s' where h1: "?run = Some (Inr (Some ?A), s')" by auto
  have h2: "(0::nat) < length (heap ?s)" by simp
  have p: "set (variables LionUnicorn) \<inter> set object_prototype = {}"
    by (simp add: LionUnicorn_def object_prototype_def)
  then have h3: "set (variables (heap ?s ! 0)) \<inter> set object_prototype = {}" by simp
  have h4: "distinct (map fst ([] :: assignment))" by simp
  have h5: "set (map fst ([] :: assignment)) \<subseteq> set (variables (heap ?s ! 0))" by simp
  have h6: "length ([] :: assignment) \<noteq> length (variables (heap ?s ! 0))
      \<or> validateConstraints [] (constraints (heap ?s ! 0)) False"
    by (simp add: LionUnicorn_def)
  from recursiveBacktracking_result_valid [OF h1 h2 h3 h4 h5 h6] r p show ?thesis
    by (simp add: list_all_iff)
qed

subsection \<open>More fuel changes nothing\<close>

lemma rb_values_fuel_Suc:
  assumes RB: "\<And>s r a x. recursiveBacktracking fuel s r a opts = Some x
      \<Longrightarrow> recursiveBacktracking (Suc fuel) s r a opts = Some x"
  shows "rb_values fuel s r a opts v vals = Some x \<Longrightarrow> rb_values (Suc fuel) s r a opts v vals = Some x"
proof (induction vals arbitrary: s)
  case Nil
  then show ?case by simp
next
  case (Cons y rest)
  let ?a = "AList.update v y a"
  let ?s1 = "s\<lparr>debugCounter := debugCounter s + 1\<rparr>"
  show ?case
  proof (cases "validateConstraints ?a (constraints (heap ?s1 ! r)) False")
    case False
    with Cons show ?thesis by (simp add: Let_def)
  next
    case True
    obtain fr s2 where step: "forwardChecking_step ?s1 r opts v y = (fr, s2)"
      by (cases "forwardChecking_step ?s1 r opts v y")
    show ?thesis
    proof (cases "\<exists>r2. fr = Inr (Some r2)")
      case False
      with True step Cons.prems show ?thesis
        by (auto simp: Let_def split: sum.splits option.splits)
    next
      case True
      then obtain r2 where fr: "fr = Inr (Some r2)" by blast
      from \<open>validateConstraints ?a (constraints (heap ?s1 ! r)) False\<close> step fr Cons.prems
      obtain rr s3 where rec: "recursiveBacktracking fuel s2 r2 ?a opts = Some (rr, s3)"
        by (auto simp: Let_def split: option.splits)
      from RB [OF rec] have rec': "recursiveBacktracking (Suc fuel) s2 r2 ?a opts = Some (rr, s3)" .
      show ?thesis
      proof (cases "rr = Inr None")
        case False
        with \<open>validateConstraints ?a (constraints (heap ?s1 ! r)) False\<close> step fr rec rec' Cons.prems
        show ?thesis by (auto simp: Let_def split: sum.splits option.splits)
      next
        case True
        with \<open>validateConstraints ?a (constraints (heap ?s1 ! r)) False\<close> step fr rec Cons.prems
        have "rb_values fuel s3 r a opts v rest = Some x" by (simp add: Let_def)
        from Cons.IH [OF this] True \<open>validateConstraints ?a (constraints (heap ?s1 ! r)) False\<close>
          step fr rec'
        show ?thesis by (simp add: Let_def)
      qed
    qed
  qed
qed

lemma recursiveBacktracking_fuel_Suc:
  "recursiveBacktracking fuel s r a opts = Some x
     \<Longrightarrow> recursiveBacktracking (Suc fuel) s r a opts = Some x"
proof (induction fuel arbitrary: s r a x)
  case 0
  then show ?case by (auto simp: recursiveBacktracking.simps split: if_splits)
next
  case (Suc fuel)
  show ?case
  proof (cases "length a = length (variables (heap s ! r))")
    case True
    with Suc.prems show ?thesis by (simp add: recursiveBacktracking.simps)
  next
    case False
    obtain ar s1 where step: "arcConsistency_step s r opts = (ar, s1)"
      by (cases "arcConsistency_step s r opts")
    show ?thesis
    proof (cases "\<exists>r1 vals. ar = Inr (Some r1) \<and>
        map_of (domains (heap s1 ! r1))
          (case find (\<lambda>variable. read a variable = Absent) (variables (heap s1 ! r1)) of
             Some variable \<Rightarrow> variable | None \<Rightarrow> ''undefined'') = Some vals")
      case False
      with \<open>length a \<noteq> length (variables (heap s ! r))\<close> step Suc.prems
      show ?thesis
        by (subst recursiveBacktracking.simps, subst (asm) recursiveBacktracking.simps)
           (auto simp: Let_def split: sum.splits option.splits)
    next
      case True
      then obtain r1 vals where ar: "ar = Inr (Some r1)"
        and vals: "map_of (domains (heap s1 ! r1))
          (case find (\<lambda>variable. read a variable = Absent) (variables (heap s1 ! r1)) of
             Some variable \<Rightarrow> variable | None \<Rightarrow> ''undefined'') = Some vals"
        by blast
      let ?v = "case find (\<lambda>variable. read a variable = Absent) (variables (heap s1 ! r1)) of
             Some variable \<Rightarrow> variable | None \<Rightarrow> ''undefined''"
      from \<open>length a \<noteq> length (variables (heap s ! r))\<close> step ar vals Suc.prems
      have "rb_values fuel s1 r1 a opts ?v vals = Some x"
        by (subst (asm) recursiveBacktracking.simps) (simp add: Let_def)
      then have "rb_values (Suc fuel) s1 r1 a opts ?v vals = Some x"
        by (rule rb_values_fuel_Suc [rotated]) (erule Suc.IH)
      with \<open>length a \<noteq> length (variables (heap s ! r))\<close> step ar vals show ?thesis
        by (subst recursiveBacktracking.simps) (simp add: Let_def)
    qed
  qed
qed

lemma recursiveBacktracking_fuel_mono:
  "recursiveBacktracking fuel s r a opts = Some x
     \<Longrightarrow> recursiveBacktracking (fuel + k) s r a opts = Some x"
  by (induction k) (auto dest: recursiveBacktracking_fuel_Suc)



subsection \<open>The Lion-Unicorn problem\<close>

text \<open>
  Claim C8: called on the Lion-Unicorn problem with the empty assignment, the search returns
  \<open>{today: "Thursday", lion: true, unicorn: false}\<close>, with the default options and with the
  option \<open>arcConsistency\<close>, for every amount of fuel from 3 on (one unit for each of the
  three variables).
\<close>

theorem recursiveBacktracking_LionUnicorn:
  "map_option fst (recursiveBacktracking (3 + k) \<lparr>heap = [LionUnicorn], debugCounter = 0\<rparr> 0 []
       \<lparr>opt_forwardChecking = False, opt_arcConsistency = False\<rparr>)
     = Some (Inr (Some [(''today'', Str ''Thursday''), (''lion'', Bool True), (''unicorn'', Bool False)]))
   \<and> map_option fst (recursiveBacktracking (3 + k) \<lparr>heap = [LionUnicorn], debugCounter = 0\<rparr> 0 []
       \<lparr>opt_forwardChecking = False, opt_arcConsistency = True\<rparr>)
     = Some (Inr (Some [(''today'', Str ''Thursday''), (''lion'', Bool True), (''unicorn'', Bool False)]))"
proof -
  let ?s = "\<lparr>heap = [LionUnicorn], debugCounter = 0\<rparr>"
  let ?A = "[(''today'', Str ''Thursday''), (''lion'', Bool True), (''unicorn'', Bool False)]"
  have "map_option fst (recursiveBacktracking 3 ?s 0 []
       \<lparr>opt_forwardChecking = False, opt_arcConsistency = False\<rparr>) = Some (Inr (Some ?A))"
    by code_simp
  then obtain x where "recursiveBacktracking 3 ?s 0 []
       \<lparr>opt_forwardChecking = False, opt_arcConsistency = False\<rparr> = Some x"
    and "fst x = Inr (Some ?A)"
    by auto
  with recursiveBacktracking_fuel_mono [of 3 ?s 0 "[]" _ x k] have plain: "map_option fst
      (recursiveBacktracking (3 + k) ?s 0 [] \<lparr>opt_forwardChecking = False, opt_arcConsistency = False\<rparr>)
      = Some (Inr (Some ?A))"
    by simp
  have "map_option fst (recursiveBacktracking 3 ?s 0 []
       \<lparr>opt_forwardChecking = False, opt_arcConsistency = True\<rparr>) = Some (Inr (Some ?A))"
    by code_simp
  then obtain y where "recursiveBacktracking 3 ?s 0 []
       \<lparr>opt_forwardChecking = False, opt_arcConsistency = True\<rparr> = Some y"
    and "fst y = Inr (Some ?A)"
    by auto
  with recursiveBacktracking_fuel_mono [of 3 ?s 0 "[]" _ y k] have "map_option fst
      (recursiveBacktracking (3 + k) ?s 0 [] \<lparr>opt_forwardChecking = False, opt_arcConsistency = True\<rparr>)
      = Some (Inr (Some ?A))"
    by simp
  with plain show ?thesis by simp
qed

subsection \<open>Forward checking in the search\<close>

text \<open>
  Claim C3 at the CSP with \<open>x: [1, 2]\<close>, \<open>y: [1]\<close> and \<open>x\<close>, \<open>y\<close> distinct, searched with the
  option \<open>forwardChecking\<close>. The forward check of the first candidate \<open>x = 1\<close> would empty the
  domain of \<open>y\<close> and returns \<open>undefined\<close>, which the search takes for "no wipeout": it
  recurses for \<open>x = 1\<close> and validates \<open>y = 1\<close> under it before it tries \<open>x = 2\<close>. The search
  counts four validations (\<open>x = 1\<close>; \<open>y = 1\<close> under \<open>x = 1\<close>; \<open>x = 2\<close>; \<open>y = 1\<close> under \<open>x = 2\<close>),
  as many as without the option; had \<open>x = 1\<close> been abandoned without recursion, there would
  be three.
\<close>

theorem recursiveBacktracking_recurses_after_wipeout:
  "fst (forwardChecking
      \<lparr>variables = [''x'', ''y''],
       domains = [(''x'', [Num 1, Num 2]), (''y'', [Num 1])],
       constraints = [MUST_BE_DISTINCT [''x'', ''y'']],
       arcs = None, neighbours = None\<rparr> ''x'' (Num 1)) = Inr Undefined
   \<and> map_option (\<lambda>(r, s). (r, debugCounter s))
      (recursiveBacktracking 2
         \<lparr>heap = [\<lparr>variables = [''x'', ''y''],
            domains = [(''x'', [Num 1, Num 2]), (''y'', [Num 1])],
            constraints = [MUST_BE_DISTINCT [''x'', ''y'']],
            arcs = None, neighbours = None\<rparr>], debugCounter = 0\<rparr> 0 []
         \<lparr>opt_forwardChecking = True, opt_arcConsistency = False\<rparr>)
     = Some (Inr (Some [(''x'', Num 2), (''y'', Num 1)]), 4)
   \<and> map_option (\<lambda>(r, s). (r, debugCounter s))
      (recursiveBacktracking 2
         \<lparr>heap = [\<lparr>variables = [''x'', ''y''],
            domains = [(''x'', [Num 1, Num 2]), (''y'', [Num 1])],
            constraints = [MUST_BE_DISTINCT [''x'', ''y'']],
            arcs = None, neighbours = None\<rparr>], debugCounter = 0\<rparr> 0 []
         \<lparr>opt_forwardChecking = False, opt_arcConsistency = False\<rparr>)
     = Some (Inr (Some [(''x'', Num 2), (''y'', Num 1)]), 4)"
  by code_simp


section \<open>The outputs recorded in the source\<close>

text \<open>
  The source ends with calls of the search and, in comments, what they print. The model
  returns the same: the colouring of Australia with the default options and with
  \<open>forwardChecking\<close>, and \<open>undefined\<close> for the failure case with the initial assignment
  \<open>{WA: "red", Q: "green"}\<close> under the three sets of options.
\<close>

lemma recursiveBacktracking_Australia:
  "map_option fst (recursiveBacktracking 7 \<lparr>heap = [Australia], debugCounter = 0\<rparr> 0 []
       \<lparr>opt_forwardChecking = False, opt_arcConsistency = False\<rparr>)
     = Some (Inr (Some [(''WA'', Str ''red''), (''NT'', Str ''green''), (''Q'', Str ''red''),
          (''NSW'', Str ''green''), (''V'', Str ''red''), (''SA'', Str ''blue''), (''T'', Str ''red'')]))"
  by code_simp

lemma recursiveBacktracking_Australia_forwardChecking:
  "map_option fst (recursiveBacktracking 7 \<lparr>heap = [Australia], debugCounter = 0\<rparr> 0 []
       \<lparr>opt_forwardChecking = True, opt_arcConsistency = False\<rparr>)
     = Some (Inr (Some [(''WA'', Str ''red''), (''NT'', Str ''green''), (''Q'', Str ''red''),
          (''NSW'', Str ''green''), (''V'', Str ''red''), (''SA'', Str ''blue''), (''T'', Str ''red'')]))"
  by code_simp

lemma recursiveBacktracking_AustraliaFailureCase:
  "map_option fst (recursiveBacktracking 7 \<lparr>heap = [AustraliaFailureCase], debugCounter = 0\<rparr> 0
       [(''WA'', Str ''red''), (''Q'', Str ''green'')]
       \<lparr>opt_forwardChecking = False, opt_arcConsistency = False\<rparr>) = Some (Inr None)"
  by code_simp

lemma recursiveBacktracking_AustraliaFailureCase_forwardChecking:
  "map_option fst (recursiveBacktracking 7 \<lparr>heap = [AustraliaFailureCase], debugCounter = 0\<rparr> 0
       [(''WA'', Str ''red''), (''Q'', Str ''green'')]
       \<lparr>opt_forwardChecking = True, opt_arcConsistency = False\<rparr>) = Some (Inr None)"
  by code_simp

lemma recursiveBacktracking_AustraliaFailureCase_arcConsistency:
  "map_option fst (recursiveBacktracking 7 \<lparr>heap = [AustraliaFailureCase], debugCounter = 0\<rparr> 0
       [(''WA'', Str ''red''), (''Q'', Str ''green'')]
       \<lparr>opt_forwardChecking = False, opt_arcConsistency = True\<rparr>) = Some (Inr None)"
  by code_simp

end
